theory Spec2Isabelle
  imports Complex_Main
begin

section \<open>Strings, errors and numbers of the Python program\<close>

text \<open>
  A Python \<open>str\<close> is a sequence of Unicode code points, and the prefix table of
  \<open>formatSI\<close> holds GREEK SMALL LETTER MU (U+03BC), which is no single byte. A string is
  therefore a list of code points; \<open>ustr\<close> embeds an ASCII literal.
\<close>

type_synonym ustring = "nat list"

definition ustr :: "string \<Rightarrow> ustring" where
  "ustr cs = map of_char cs"

text \<open>The exceptions that the modelled code can raise.\<close>

datatype error = OverflowError | ValueError | NameError

text \<open>
  A Python \<open>float\<close> is an IEEE double. Every finite double is a rational number, and the
  model computes with the exact value as a \<open>real\<close>: the rounding of each operation to 53
  bits is not modelled, so where the exact value is a decimal tie the program, which holds
  the nearest double, can render a last digit one unit away from the model's. The range
  of the doubles is modelled: a decimal string whose value reaches \<open>2^1024 - 2^970\<close> is
  read by \<open>float()\<close> as an infinity.
\<close>

datatype float64 = Finite real | PosInf | NegInf

definition float_of_decimal :: "real \<Rightarrow> float64" where
  "float_of_decimal q =
     (if 2 ^ 1024 - 2 ^ 970 \<le> q then PosInf
      else if q \<le> - (2 ^ 1024 - 2 ^ 970) then NegInf
      else Finite q)"

subsection \<open>Floor of a logarithm, by search\<close>

function ilog_up :: "nat \<Rightarrow> real \<Rightarrow> nat" where
  "ilog_up b x = (if b \<le> 1 \<or> x < real b then 0 else Suc (ilog_up b (x / real b)))"
  by pat_completeness auto
termination
proof (relation "measure (\<lambda>(b, x). nat \<lfloor>x\<rfloor>)")
  show "wf (measure (\<lambda>(b, x). nat \<lfloor>x\<rfloor>))" by simp
next
  fix b :: nat and x :: real
  assume a: "\<not> (b \<le> 1 \<or> x < real b)"
  then have b2: "2 \<le> real b" and xb: "real b \<le> x" by auto
  have "x / real b \<le> x / 2"
    using b2 xb by (intro divide_left_mono) auto
  also have "x / 2 \<le> x - 1" using b2 xb by simp
  finally have "\<lfloor>x / real b\<rfloor> < \<lfloor>x\<rfloor>"
    by (simp add: floor_less_iff) linarith
  moreover have "0 < \<lfloor>x\<rfloor>" using b2 xb by simp
  ultimately show "((b, x / real b), (b, x)) \<in> measure (\<lambda>(b, x). nat \<lfloor>x\<rfloor>)"
    by simp
qed

function ilog_down :: "nat \<Rightarrow> real \<Rightarrow> nat" where
  "ilog_down b x =
     (if b \<le> 1 \<or> x \<le> 0 \<or> 1 \<le> x then 0 else Suc (ilog_down b (x * real b)))"
  by pat_completeness auto
termination
proof (relation "measure (\<lambda>(b, x). nat \<lceil>1 / x\<rceil>)")
  show "wf (measure (\<lambda>(b, x). nat \<lceil>1 / x\<rceil>))" by simp
next
  fix b :: nat and x :: real
  assume a: "\<not> (b \<le> 1 \<or> x \<le> 0 \<or> 1 \<le> x)"
  then have b2: "2 \<le> real b" and x0: "0 < x" and x1: "x < 1" by auto
  have y1: "1 < 1 / x" using x0 x1 by simp
  then have c2: "2 \<le> \<lceil>1 / x\<rceil>" by linarith
  have "1 / (x * real b) = (1 / x) / real b" by simp
  also have "\<dots> \<le> (1 / x) / 2"
    using b2 x0 by (intro divide_left_mono) auto
  also have "\<dots> \<le> real_of_int \<lceil>1 / x\<rceil> / 2"
    by (simp add: divide_right_mono)
  also have "\<dots> \<le> real_of_int (\<lceil>1 / x\<rceil> - 1)" using c2 by simp
  finally have "\<lceil>1 / (x * real b)\<rceil> \<le> \<lceil>1 / x\<rceil> - 1"
    by (simp only: ceiling_le_iff)
  then show "((b, x * real b), (b, x)) \<in> measure (\<lambda>(b, x). nat \<lceil>1 / x\<rceil>)"
    using c2 x0 by simp
qed

declare ilog_up.simps [simp del] ilog_down.simps [simp del]

text \<open>\<open>floor_log b x\<close> is the integer \<open>e\<close> with \<open>b^e \<le> x < b^(e+1)\<close>, for \<open>x > 0\<close>.\<close>

definition floor_log :: "nat \<Rightarrow> real \<Rightarrow> int" where
  "floor_log b x = (if 1 \<le> x then int (ilog_up b x) else - int (ilog_down b x))"

subsection \<open>Rounding to significant decimal digits\<close>

text \<open>
  Python converts a double to decimal digits correctly rounded, ties to the even digit.
\<close>

definition round_half_even :: "real \<Rightarrow> int" where
  "round_half_even y =
     (let f = \<lfloor>y\<rfloor>; d = y - of_int f
      in if d < 1 / 2 then f else if 1 / 2 < d then f + 1
         else if even f then f else f + 1)"

text \<open>
  \<open>sig_round n x = (m, e)\<close>: the \<open>n\<close> significant digits of \<open>x > 0\<close> are the decimal
  digits of \<open>m\<close>, and the first of them has the weight \<open>10^e\<close>. A mantissa that rounds up
  to \<open>10^n\<close> carries into the exponent.
\<close>

definition sig_round :: "nat \<Rightarrow> real \<Rightarrow> int \<times> int" where
  "sig_round n x =
     (let e = floor_log 10 x;
          m = round_half_even (x / 10 powi (e - (int n - 1)))
      in if m = 10 ^ n then (10 ^ (n - 1), e + 1) else (m, e))"

text \<open>
  \<open>float(f'{number:.{precision}e}')\<close>: the format \<open>.{precision}e\<close> writes one digit before
  the point and \<open>precision\<close> digits after it, that is \<open>precision + 1\<close> significant digits,
  and \<open>float\<close> reads the decimal string back.
\<close>

definition round_e :: "nat \<Rightarrow> real \<Rightarrow> float64" where
  "round_e precision number =
     (if number = 0 then Finite 0
      else let (m, e) = sig_round (precision + 1) \<bar>number\<bar>
           in float_of_decimal (sgn number * of_int m * 10 powi (e - int precision)))"

subsection \<open>Decimal digits\<close>

fun nat_digits :: "nat \<Rightarrow> ustring" where
  "nat_digits n = (if n < 10 then [48 + n] else nat_digits (n div 10) @ [48 + n mod 10])"

declare nat_digits.simps [simp del]

primrec digits_w :: "nat \<Rightarrow> nat \<Rightarrow> ustring" where
  "digits_w 0 m = []"
| "digits_w (Suc w) m = digits_w w (m div 10) @ [48 + m mod 10]"

definition strip_zeros :: "ustring \<Rightarrow> ustring" where
  "strip_zeros ds = rev (dropWhile (\<lambda>c. c = 48) (rev ds))"

definition exp_suffix :: "int \<Rightarrow> ustring" where
  "exp_suffix e =
     101 # (if e < 0 then 45 else 43) #
       (if \<bar>e\<bar> < 10 then [48, 48 + nat \<bar>e\<bar>] else nat_digits (nat \<bar>e\<bar>))"

section \<open>The format specification \<open>{s}.{precision}g\<close>\<close>

text \<open>
  The specification handed to \<open>format\<close> is \<open>s\<close> followed by \<open>.\<close>, the precision and
  \<open>g\<close>. It is well formed exactly when \<open>s\<close> as a whole is read as
  an optional fill character with an alignment, a sign, \<open>#\<close>, \<open>0\<close>, a width and a
  grouping character, each optional and in this order, the order in which CPython reads
  these fields; anything left over of \<open>s\<close> raises \<open>ValueError\<close>. Widths are written in ASCII
  digits and have no upper limit here, and the flag \<open>z\<close> of later Python versions is not
  read.
\<close>

datatype align = AlignLeft | AlignRight | AlignPad | AlignCenter

datatype sign_opt = SignMinus | SignPlus | SignSpace

record fmt_spec =
  fill :: nat
  align :: align
  sign :: sign_opt
  alternate :: bool
  width :: nat
  thousands :: "nat option"

definition align_of :: "nat \<Rightarrow> align option" where
  "align_of c =
     (if c = 60 then Some AlignLeft else if c = 62 then Some AlignRight
      else if c = 61 then Some AlignPad else if c = 94 then Some AlignCenter else None)"

definition sign_option_of :: "nat \<Rightarrow> sign_opt option" where
  "sign_option_of c =
     (if c = 43 then Some SignPlus else if c = 45 then Some SignMinus
      else if c = 32 then Some SignSpace else None)"

definition take_align :: "ustring \<Rightarrow> (nat option \<times> align option) \<times> ustring" where
  "take_align s =
     (case s of
        [] \<Rightarrow> ((None, None), [])
      | [a] \<Rightarrow> (case align_of a of Some al \<Rightarrow> ((None, Some al), []) | None \<Rightarrow> ((None, None), s))
      | f # a # rest \<Rightarrow>
          (case align_of a of
             Some al \<Rightarrow> ((Some f, Some al), rest)
           | None \<Rightarrow>
               (case align_of f of
                  Some al \<Rightarrow> ((None, Some al), a # rest)
                | None \<Rightarrow> ((None, None), s))))"

definition take_sign :: "ustring \<Rightarrow> sign_opt \<times> ustring" where
  "take_sign s =
     (case s of
        [] \<Rightarrow> (SignMinus, [])
      | c # rest \<Rightarrow> (case sign_option_of c of Some so \<Rightarrow> (so, rest) | None \<Rightarrow> (SignMinus, s)))"

definition take_char :: "nat \<Rightarrow> ustring \<Rightarrow> bool \<times> ustring" where
  "take_char c s = (case s of [] \<Rightarrow> (False, []) | d # rest \<Rightarrow> if d = c then (True, rest) else (False, s))"

definition is_digit :: "nat \<Rightarrow> bool" where
  "is_digit c = (48 \<le> c \<and> c \<le> 57)"

definition digits_value :: "ustring \<Rightarrow> nat" where
  "digits_value ds = foldl (\<lambda>n c. 10 * n + (c - 48)) 0 ds"

definition parse_spec :: "ustring \<Rightarrow> error + fmt_spec" where
  "parse_spec s =
     (let ((fl, al), s1) = take_align s;
          (so, s2) = take_sign s1;
          (alt, s3) = take_char 35 s2;
          (zero, s4) = (if fl = None then take_char 48 s3 else (False, s3));
          w = digits_value (takeWhile is_digit s4);
          s5 = dropWhile is_digit s4;
          (comma, s6) = take_char 44 s5;
          (under, s7) = take_char 95 s6
      in if comma \<and> under then Inl ValueError
         else if s7 \<noteq> [] then Inl ValueError
         else Inr \<lparr> fill = (case fl of Some f \<Rightarrow> f | None \<Rightarrow> if zero then 48 else 32),
                    align = (case al of Some a \<Rightarrow> a | None \<Rightarrow> if zero then AlignPad else AlignRight),
                    sign = so, alternate = alt, width = w,
                    thousands = (if comma then Some 44 else if under then Some 95 else None) \<rparr>)"

subsection \<open>Rendering\<close>

text \<open>
  The presentation type \<open>g\<close> with precision \<open>p\<close> (0 counts as 1) rounds to \<open>p\<close>
  significant digits, writes exponent notation when the decimal exponent is below \<open>-4\<close> or
  not below \<open>p\<close>, and drops trailing zeros of the fraction (and a point left bare) unless
  \<open>#\<close> is given. \<open>g_parts\<close> returns the digits before the point and everything after them.
\<close>

definition g_parts :: "bool \<Rightarrow> nat \<Rightarrow> real \<Rightarrow> ustring \<times> ustring" where
  "g_parts alt precision x =
     (let p = max 1 precision;
          (m, e) = (if x = 0 then (0, 0) else sig_round p \<bar>x\<bar>);
          ds = digits_w p (nat m);
          use_exp = (e < - 4 \<or> int p \<le> e);
          (ip, fr) = (if use_exp then (take 1 ds, drop 1 ds)
                      else if 0 \<le> e then (take (nat e + 1) ds, drop (nat e + 1) ds)
                      else ([48], replicate (nat (- e - 1)) 48 @ ds));
          fr' = (if alt then fr else strip_zeros fr);
          point = (if alt then [46] else if fr' = [] then [] else [46]);
          ex = (if use_exp then exp_suffix e else [])
      in (ip, point @ fr' @ ex))"

definition sign_of :: "sign_opt \<Rightarrow> real \<Rightarrow> ustring" where
  "sign_of so x =
     (if x < 0 then [45]
      else case so of SignPlus \<Rightarrow> [43] | SignSpace \<Rightarrow> [32] | SignMinus \<Rightarrow> [])"

text \<open>
  Grouping works from the right in groups of three and goes on with zeros until the
  minimal width is used up; a group never starts with the separator.
\<close>

definition group_len :: "ustring \<Rightarrow> int \<Rightarrow> int" where
  "group_len ds min_width = min 3 (max (max (int (length ds)) min_width) 1)"

definition group_chars :: "ustring \<Rightarrow> int \<Rightarrow> nat" where
  "group_chars ds min_width = nat (max 0 (min (int (length ds)) (group_len ds min_width)))"

definition group_chunk :: "nat \<Rightarrow> ustring \<Rightarrow> int \<Rightarrow> bool \<Rightarrow> ustring" where
  "group_chunk sep ds min_width use_sep =
     replicate (nat (max 0 (group_len ds min_width - int (length ds)))) 48
       @ drop (length ds - group_chars ds min_width) ds
       @ (if use_sep then [sep] else [])"

function group3 :: "nat \<Rightarrow> ustring \<Rightarrow> int \<Rightarrow> bool \<Rightarrow> ustring" where
  "group3 sep ds min_width use_sep =
     (if take (length ds - group_chars ds min_width) ds = [] \<and> min_width - group_len ds min_width \<le> 0
      then group_chunk sep ds min_width use_sep
      else group3 sep (take (length ds - group_chars ds min_width) ds)
             (min_width - group_len ds min_width - 1) True
           @ group_chunk sep ds min_width use_sep)"
  by pat_completeness auto
termination
proof (relation "measure (\<lambda>(sep, ds, mw, u). length ds + nat mw)")
  show "wf (measure (\<lambda>(sep, ds, mw, u). length ds + nat mw))" by simp
next
  fix sep :: nat and ds :: ustring and min_width :: int and use_sep :: bool
  let ?l = "group_len ds min_width" and ?n = "group_chars ds min_width"
  let ?ds' = "take (length ds - ?n) ds"
  assume c: "\<not> (?ds' = [] \<and> min_width - ?l \<le> 0)"
  have l1: "1 \<le> ?l" by (simp add: group_len_def)
  have len: "length ?ds' = length ds - ?n" by simp
  show "((sep, ?ds', min_width - ?l - 1, True), (sep, ds, min_width, use_sep))
          \<in> measure (\<lambda>(sep, ds, mw, u). length ds + nat mw)"
  proof (cases "0 < min_width")
    case True
    then have "nat (min_width - ?l - 1) < nat min_width" using l1 by linarith
    then have "length ?ds' + nat (min_width - ?l - 1) < length ds + nat min_width"
      unfolding len by arith
    then show ?thesis by (simp only: in_measure prod.case)
  next
    case False
    then have "?ds' \<noteq> []" using c l1 by auto
    then have d0: "0 < length ds" by auto
    then have "1 \<le> int (length ds)" by (cases ds) auto
    then have "1 \<le> ?n" using l1 unfolding group_chars_def by linarith
    then have "length ?ds' < length ds" using d0 by simp
    moreover have "nat (min_width - ?l - 1) = 0" "nat min_width = 0" using False l1 by auto
    ultimately have "length ?ds' + nat (min_width - ?l - 1) < length ds + nat min_width"
      by arith
    then show ?thesis by (simp only: in_measure prod.case)
  qed
qed

declare group3.simps [simp del]

definition group_digits :: "nat option \<Rightarrow> ustring \<Rightarrow> int \<Rightarrow> ustring" where
  "group_digits th ds min_width =
     (case th of
        None \<Rightarrow> replicate (nat (max (max (int (length ds)) min_width) 1) - length ds) 48 @ ds
      | Some sep \<Rightarrow> group3 sep ds min_width False)"

definition render_g :: "fmt_spec \<Rightarrow> nat \<Rightarrow> real \<Rightarrow> ustring" where
  "render_g sp precision x =
     (let (ip, rest) = g_parts (alternate sp) precision x;
          sg = sign_of (sign sp) x;
          n_fixed = int (length sg + length rest);
          min_width = (if fill sp = 48 \<and> align sp = AlignPad then int (width sp) - n_fixed else 0);
          grouped = group_digits (thousands sp) ip min_width;
          n_padding = nat (int (width sp) - (n_fixed + int (length grouped)));
          (lp, mp, rp) =
            (case align sp of
               AlignLeft \<Rightarrow> (0, 0, n_padding)
             | AlignCenter \<Rightarrow> (n_padding div 2, 0, n_padding - n_padding div 2)
             | AlignPad \<Rightarrow> (0, n_padding, 0)
             | AlignRight \<Rightarrow> (n_padding, 0, 0))
      in replicate lp (fill sp) @ sg @ replicate mp (fill sp) @ grouped @ rest
           @ replicate rp (fill sp))"

text \<open>\<open>format_g s precision x\<close> is \<open>f'{x:{s}.{precision}g}'\<close>.\<close>

definition format_g :: "ustring \<Rightarrow> nat \<Rightarrow> real \<Rightarrow> error + ustring" where
  "format_g s precision x =
     (case parse_spec s of Inl err \<Rightarrow> Inl err | Inr sp \<Rightarrow> Inr (render_g sp precision x))"

subsection \<open>Reading a rendered number back\<close>

text \<open>
  The number that a text in plain decimal notation denotes: an optional minus sign,
  digits, and optionally a point followed by digits. A text in exponent notation, or any
  other text, denotes nothing here.
\<close>

definition decimal_value :: "ustring \<Rightarrow> real option" where
  "decimal_value t =
     (let neg = (t \<noteq> [] \<and> hd t = 45);
          u = (if neg then tl t else t);
          ip = takeWhile is_digit u;
          rest = dropWhile is_digit u;
          fr = tl rest;
          v = real (digits_value ip) + real (digits_value fr) / 10 ^ length fr
      in if ip = [] then None
         else if rest = [] then Some (if neg then - v else v)
         else if hd rest = 46 \<and> fr \<noteq> [] \<and> list_all is_digit fr
              then Some (if neg then - v else v)
         else None)"

section \<open>\<open>formatSI\<close>\<close>

text \<open>
  \<open>baseThousand = np.floor(np.log(abs(number))/np.log(1e3))\<close>, computed by search;
  lemma \<open>baseThousand_ln\<close> below shows that the search finds the floor of the quotient
  of the logarithms.
\<close>

definition baseThousand :: "real \<Rightarrow> int" where
  "baseThousand number = floor_log 1000 \<bar>number\<bar>"

text \<open>\<open>prefixKey = f'{int(baseThousand):+1d}'\<close>: a sign, always, and the decimal digits.\<close>

definition prefixKey :: "int \<Rightarrow> ustring" where
  "prefixKey e = (if e < 0 then 45 else 43) # nat_digits (nat \<bar>e\<bar>)"

text \<open>\<open>shortenedDigits = number/(1e3**baseThousand)\<close>\<close>

definition shortenedDigits :: "real \<Rightarrow> real" where
  "shortenedDigits number = number / 1000 powi baseThousand number"

text \<open>The micro prefix is the code point 956, GREEK SMALL LETTER MU.\<close>

definition prefixDict :: "ustring \<rightharpoonup> ustring" where
  "prefixDict = map_of
     [(ustr ''-4'', ustr ''p''), (ustr ''-3'', ustr ''n''), (ustr ''-2'', [956]),
      (ustr ''-1'', ustr ''m''), (ustr ''+0'', []),
      (ustr ''+1'', ustr ''k''), (ustr ''+2'', ustr ''M''), (ustr ''+3'', ustr ''G''),
      (ustr ''+4'', ustr ''T'')]"

text \<open>
  An infinite rounded number stays infinite under \<open>abs\<close>, \<open>np.log\<close>, the division and
  \<open>np.floor\<close>, and \<open>int\<close> of an infinity raises \<open>OverflowError\<close>.
\<close>

definition formatSI :: "real \<Rightarrow> nat \<Rightarrow> ustring \<Rightarrow> error + ustring" where
  "formatSI number precision s =
     (if number = 0 then map_sum id (\<lambda>t. t @ ustr '' '') (format_g s precision 0)
      else case round_e precision number of
             Finite r \<Rightarrow>
               (case prefixDict (prefixKey (baseThousand r)) of
                  Some pre \<Rightarrow>
                    map_sum id (\<lambda>t. t @ ustr '' '' @ pre)
                      (format_g s precision (shortenedDigits r))
                | None \<Rightarrow> map_sum id (\<lambda>t. t @ ustr '' '') (format_g s precision r))
           | PosInf \<Rightarrow> Inl OverflowError
           | NegInf \<Rightarrow> Inl OverflowError)"

section \<open>The class \<open>Curve\<close>\<close>

text \<open>
  The axes object belongs to the plotting library. What the methods below need of it is
  its view limits and the artists drawn on it. How the library moves the view limits when
  a line is added is its own business and is a parameter \<open>au\<close> of the model; a text
  annotation takes no part in autoscaling, and \<open>set_xlim\<close>, \<open>set_ylim\<close> store the
  limits they are given. The keyword arguments \<open>**fmt\<close> only style an artist and are left
  out.
\<close>

datatype artist =
    Line "(real \<times> real) list"
  | VLines real real real
  | HLines real real real
  | Annotation ustring "real \<times> real" "real \<times> real"

record axes =
  xlim :: "real \<times> real"
  ylim :: "real \<times> real"
  artists :: "artist list"

type_synonym autoscale = "artist \<Rightarrow> axes \<Rightarrow> (real \<times> real) \<times> (real \<times> real)"

definition add_artist :: "autoscale \<Rightarrow> artist \<Rightarrow> axes \<Rightarrow> axes" where
  "add_artist au a axs =
     (let (xl, yl) = au a axs in \<lparr> xlim = xl, ylim = yl, artists = artists axs @ [a] \<rparr>)"

definition annotate :: "artist \<Rightarrow> axes \<Rightarrow> axes" where
  "annotate a axs = axs \<lparr> artists := artists axs @ [a] \<rparr>"

definition set_xlim :: "real \<Rightarrow> real \<Rightarrow> axes \<Rightarrow> axes" where
  "set_xlim lo hi axs = axs \<lparr> xlim := (lo, hi) \<rparr>"

definition set_ylim :: "real \<Rightarrow> real \<Rightarrow> axes \<Rightarrow> axes" where
  "set_ylim lo hi axs = axs \<lparr> ylim := (lo, hi) \<rparr>"

record curve =
  ax :: axes
  func :: "real \<Rightarrow> real"
  n_points :: nat

text \<open>
  The methods change \<open>self.ax\<close> in place; the model returns the axes after the call,
  and for \<open>plot_line\<close> also how the call ended; the arguments \<open>min_\<close>, \<open>max_\<close> are
  \<open>minv\<close>, \<open>maxv\<close> here. \<open>Return\<close> is a name that nothing binds:
  evaluating it raises \<open>NameError\<close>.
\<close>

definition plot_line ::
  "autoscale \<Rightarrow> curve \<Rightarrow> real \<Rightarrow> real \<Rightarrow> real option \<Rightarrow> ustring option \<Rightarrow> axes \<times> (error + unit)" where
  "plot_line au self minv maxv pos label =
     (let y_min = func self minv;
          y_max = func self maxv;
          ax1 = add_artist au (Line [(minv, y_min), (maxv, y_max)]) (ax self)
      in case pos of
           None \<Rightarrow> (ax1, Inl NameError)
         | Some p \<Rightarrow>
             (let y_label = (y_max - y_min) * p + y_min;
                  x_label = (maxv - minv) * p + minv
              in case label of
                   None \<Rightarrow> (ax1, Inl NameError)
                 | Some l \<Rightarrow>
                     (annotate (Annotation l (x_label, y_label) (- 30, 30)) ax1, Inr ())))"

definition draw_connecting_hline ::
  "autoscale \<Rightarrow> curve \<Rightarrow> real \<Rightarrow> ustring option \<Rightarrow> real \<Rightarrow> axes" where
  "draw_connecting_hline au self x label pos =
     (let (min_y, max_y) = ylim (ax self);
          curve_y = func self x;
          ax1 = add_artist au (VLines x min_y curve_y) (ax self);
          ax2 = set_ylim min_y max_y ax1
      in case label of
           None \<Rightarrow> ax2
         | Some l \<Rightarrow>
             (let label_y = (curve_y - min_y) * pos + min_y
              in annotate (Annotation l (x, label_y) (5, 0)) ax2))"

definition draw_connecting_vline ::
  "autoscale \<Rightarrow> curve \<Rightarrow> real \<Rightarrow> ustring option \<Rightarrow> real \<Rightarrow> axes" where
  "draw_connecting_vline au self x label pos =
     (let (min_x, max_x) = xlim (ax self);
          curve_y = func self x;
          ax1 = add_artist au (HLines curve_y min_x x) (ax self);
          ax2 = set_xlim min_x max_x ax1
      in case label of None \<Rightarrow> ax2 | Some l \<Rightarrow> ax2)"

section \<open>Properties of the search for the logarithm\<close>

lemma ilog_up_bounds:
  "2 \<le> b \<Longrightarrow> 1 \<le> x \<Longrightarrow> real b ^ ilog_up b x \<le> x \<and> x < real b ^ Suc (ilog_up b x)"
proof (induction b x rule: ilog_up.induct)
  case (1 b x)
  show ?case
  proof (cases "x < real b")
    case True
    with "1.prems" show ?thesis by (simp add: ilog_up.simps)
  next
    case False
    with "1.prems" have c: "\<not> (b \<le> 1 \<or> x < real b)" by simp
    have b0: "0 < real b" using "1.prems" by simp
    have "1 \<le> x / real b" using False b0 by (simp add: field_simps)
    with "1.IH" [OF c] "1.prems"
    have ih: "real b ^ ilog_up b (x / real b) \<le> x / real b"
      "x / real b < real b ^ Suc (ilog_up b (x / real b))" by simp_all
    have eq: "ilog_up b x = Suc (ilog_up b (x / real b))"
      using c by (subst ilog_up.simps) simp
    from ih b0 show ?thesis unfolding eq by (simp add: field_simps)
  qed
qed

lemma ilog_down_bounds:
  "2 \<le> b \<Longrightarrow> 0 < x \<Longrightarrow> x < 1 \<Longrightarrow>
     1 \<le> x * real b ^ ilog_down b x \<and> x * real b ^ ilog_down b x < real b"
proof (induction b x rule: ilog_down.induct)
  case (1 b x)
  have c: "\<not> (b \<le> 1 \<or> x \<le> 0 \<or> 1 \<le> x)" using "1.prems" by simp
  have b0: "0 < real b" using "1.prems" by simp
  have eq: "ilog_down b x = Suc (ilog_down b (x * real b))"
    using c by (subst ilog_down.simps) simp
  show ?case
  proof (cases "x * real b < 1")
    case True
    have "0 < x * real b" using "1.prems" b0 by simp
    with "1.IH" [OF c] "1.prems" True
    show ?thesis unfolding eq by (simp add: mult.assoc)
  next
    case False
    then have z: "ilog_down b (x * real b) = 0" by (subst ilog_down.simps) simp
    have "x * real b < real b" using "1.prems" b0 by simp
    with False show ?thesis unfolding eq z by simp
  qed
qed

lemma floor_log_bounds:
  assumes "2 \<le> b" "0 < x"
  shows "real b powi floor_log b x \<le> x" and "x < real b powi (floor_log b x + 1)"
proof -
  have b0: "0 < real b" using assms by simp
  show "real b powi floor_log b x \<le> x"
  proof (cases "1 \<le> x")
    case True
    then show ?thesis using ilog_up_bounds [OF assms(1) True] by (simp add: floor_log_def)
  next
    case False
    then have x1: "x < 1" by simp
    from ilog_down_bounds [OF assms x1] have "1 \<le> x * real b ^ ilog_down b x" by simp
    then show ?thesis using False b0
      by (simp add: floor_log_def power_int_minus field_simps)
  qed
  show "x < real b powi (floor_log b x + 1)"
  proof (cases "1 \<le> x")
    case True
    have "real b powi (int (ilog_up b x) + 1) = real b ^ Suc (ilog_up b x)"
      using power_int_of_nat [of "real b" "Suc (ilog_up b x)"] by (simp add: add.commute)
    then show ?thesis using ilog_up_bounds [OF assms(1) True] True
      by (simp add: floor_log_def)
  next
    case False
    then have x1: "x < 1" by simp
    from ilog_down_bounds [OF assms x1] have u: "x * real b ^ ilog_down b x < real b" by simp
    have k: "0 < ilog_down b x" using assms x1 by (subst ilog_down.simps) simp
    then obtain k where kk: "ilog_down b x = Suc k" by (cases "ilog_down b x") auto
    have e: "- int (Suc k) + 1 = - int k" by simp
    have "x * real b ^ k < 1" using u b0 unfolding kk by simp
    then have "x < real b powi (- int k)" using b0
      by (simp add: power_int_minus field_simps)
    then show ?thesis using False unfolding floor_log_def kk
      by (simp only: e if_False)
  qed
qed

lemma powi_less_imp_less: "1 < (b::real) \<Longrightarrow> b powi m < b powi n \<Longrightarrow> m < n"
  using power_int_increasing [of n m b] by (cases "m < n") auto

lemma floor_log_unique:
  assumes "2 \<le> b" "0 < x" "real b powi e \<le> x" "x < real b powi (e + 1)"
  shows "floor_log b x = e"
proof -
  have b1: "1 < real b" using assms by simp
  note fb = floor_log_bounds [OF assms(1,2)]
  have "real b powi e < real b powi (floor_log b x + 1)" using assms(3) fb(2) by simp
  then have "e < floor_log b x + 1" using b1 powi_less_imp_less by blast 
  moreover have "real b powi floor_log b x < real b powi (e + 1)" using assms(4) fb(1) by simp
  then have "floor_log b x < e + 1" using b1 powi_less_imp_less by blast 
  ultimately show ?thesis by simp
qed

lemma floor_log_eq_floor:
  assumes "2 \<le> b" "0 < x"
  shows "floor_log b x = \<lfloor>log (real b) x\<rfloor>"
proof -
  have b1: "1 < real b" using assms by simp
  note fb = floor_log_bounds [OF assms]
  have "real b powr (of_int (floor_log b x)) \<le> x" using fb(1) b1 by (simp add: powr_real_of_int')
  then have l: "of_int (floor_log b x) \<le> log (real b) x" using b1 assms(2) by (simp add: le_log_iff)
  have "x < real b powr (of_int (floor_log b x + 1))" using fb(2) b1 by (simp add: powr_real_of_int' del: of_int_add)
  then have u: "log (real b) x < of_int (floor_log b x + 1)" using b1 assms(2) by (simp add: log_less_iff del: of_int_add)
  show ?thesis using l u by (intro floor_unique [symmetric]) simp_all
qed

lemma baseThousand_ln: "r \<noteq> 0 \<Longrightarrow> baseThousand r = \<lfloor>ln \<bar>r\<bar> / ln 1000\<rfloor>"
  using floor_log_eq_floor [of 1000 "\<bar>r\<bar>"] by (simp add: baseThousand_def log_def)

section \<open>Properties of the rounding to significant digits\<close>

lemma round_half_even_ge: "of_int k \<le> y \<Longrightarrow> k \<le> round_half_even y"
proof -
  assume "of_int k \<le> y"
  then have "k \<le> \<lfloor>y\<rfloor>" by (simp add: le_floor_iff)
  then show ?thesis by (simp add: round_half_even_def Let_def)
qed

lemma round_half_even_le: "y \<le> of_int k \<Longrightarrow> round_half_even y \<le> k"
proof -
  assume a: "y \<le> of_int k"
  show ?thesis
  proof (cases "y = of_int k")
    case True
    then show ?thesis by (simp add: round_half_even_def Let_def)
  next
    case False
    with a have "y < of_int k" by simp
    then have "\<lfloor>y\<rfloor> < k" by (simp add: floor_less_iff)
    then show ?thesis by (simp add: round_half_even_def Let_def)
  qed
qed

lemma pow10_shift:
  assumes "0 < n"
  shows "(10::real) ^ (n - 1) * 10 powi (k - (int n - 1)) = 10 powi k"
proof -
  have i: "int (n - 1) = int n - 1" using assms by simp
  have "(10::real) ^ (n - 1) = 10 powi (int n - 1)"
    using power_int_of_nat [of "10::real" "n - 1"] unfolding i by simp
  then show ?thesis
    using power_int_add [of "10::real" "int n - 1" "k - (int n - 1)"] by simp
qed

lemma pow10_shift_Suc: "(10::real) ^ n * 10 powi (k - (int n - 1)) = 10 powi (k + 1)"
proof -
  have "(10::real) ^ n = 10 powi (int n)" by simp
  then show ?thesis
    using power_int_add [of "10::real" "int n" "k - (int n - 1)"] by (simp add: algebra_simps)
qed

lemma sig_round_cases:
  assumes "0 < x" "0 < n" "sig_round n x = (m, e)"
  shows "10 ^ (n - 1) \<le> m" and "m < 10 ^ n"
    and "10 powi floor_log 10 x \<le> of_int m * (10::real) powi (e - (int n - 1))"
    and "of_int m * (10::real) powi (e - (int n - 1)) \<le> 10 powi (floor_log 10 x + 1)"
proof -
  define e0 where "e0 = floor_log 10 x"
  define sc :: real where "sc = 10 powi (e0 - (int n - 1))"
  define m0 where "m0 = round_half_even (x / sc)"
  have sc0: "0 < sc" by (simp add: sc_def)
  have fb: "10 powi e0 \<le> x" "x < 10 powi (e0 + 1)"
    using floor_log_bounds [of 10 x] assms(1) by (simp_all add: e0_def)
  have lo: "(10::real) powi e0 = 10 ^ (n - 1) * sc"
    unfolding sc_def by (rule pow10_shift [OF assms(2), symmetric])
  have hi: "(10::real) powi (e0 + 1) = 10 ^ n * sc"
    unfolding sc_def by (rule pow10_shift_Suc [symmetric])
  have "10 ^ (n - 1) * sc \<le> x" using fb(1) unfolding lo .
  then have "of_int (10 ^ (n - 1)) \<le> x / sc" using sc0 by (simp add: field_simps)
  then have m_lo: "10 ^ (n - 1) \<le> m0" unfolding m0_def by (rule round_half_even_ge)
  have "x < 10 ^ n * sc" using fb(2) unfolding hi .
  then have "x / sc \<le> of_int (10 ^ n)" using sc0 by (simp add: field_simps)
  then have m_hi: "m0 \<le> 10 ^ n" unfolding m0_def by (rule round_half_even_le)
  have sr: "sig_round n x = (if m0 = 10 ^ n then (10 ^ (n - 1), e0 + 1) else (m0, e0))"
    by (simp add: sig_round_def Let_def e0_def m0_def sc_def)
  have pw: "(10::int) ^ (n - 1) < 10 ^ n" using assms(2) by (simp add: power_strict_increasing_iff)
  have "10 ^ (n - 1) \<le> m \<and> m < 10 ^ n
      \<and> 10 powi e0 \<le> of_int m * (10::real) powi (e - (int n - 1))
      \<and> of_int m * (10::real) powi (e - (int n - 1)) \<le> 10 powi (e0 + 1)"
  proof (cases "m0 = 10 ^ n")
    case True
    with sr assms(3) have me: "m = 10 ^ (n - 1)" "e = e0 + 1" by simp_all
    have v: "of_int m * (10::real) powi (e - (int n - 1)) = 10 powi (e0 + 1)"
      using pow10_shift [OF assms(2), of "e0 + 1"] by (simp add: me)
    have "(10::real) powi e0 \<le> 10 powi (e0 + 1)"
      by (rule power_int_increasing) simp_all
    then show ?thesis unfolding v using me pw by simp
  next
    case False
    with sr assms(3) have me: "m = m0" "e = e0" by simp_all
    from False m_hi have m_lt: "m0 < 10 ^ n" by simp
    have "(10::real) ^ (n - 1) \<le> of_int m0"
      using m_lo by (metis of_int_le_iff of_int_numeral of_int_power)
    then have a: "10 powi e0 \<le> of_int m * sc"
      unfolding me lo using sc0 by simp
    have "of_int m0 \<le> (10::real) ^ n"
      using m_hi by (metis of_int_le_iff of_int_numeral of_int_power)
    then have b: "of_int m * sc \<le> 10 powi (e0 + 1)"
      unfolding me hi using sc0 by simp
    show ?thesis using a b m_lo m_lt unfolding sc_def me by simp
  qed
  then show "10 ^ (n - 1) \<le> m" and "m < 10 ^ n"
    and "10 powi floor_log 10 x \<le> of_int m * (10::real) powi (e - (int n - 1))"
    and "of_int m * (10::real) powi (e - (int n - 1)) \<le> 10 powi (floor_log 10 x + 1)"
    unfolding e0_def by simp_all
qed

lemma sig_round_range:
  assumes "0 < x" "0 < n" "sig_round n x = (m, e)" "10 powi a \<le> x" "x < 10 powi b"
  shows "10 powi a \<le> of_int m * (10::real) powi (e - (int n - 1))"
    and "of_int m * (10::real) powi (e - (int n - 1)) \<le> 10 powi b"
proof -
  note sr = sig_round_cases [OF assms(1-3)]
  note fb = floor_log_bounds [of 10 x, simplified, OF assms(1)]
  have h1: "(10::real) powi a < 10 powi (floor_log 10 x + 1)" using assms(4) fb(2) by simp
  have "a < floor_log 10 x + 1" using powi_less_imp_less [OF _ h1] by simp
  then have "(10::real) powi a \<le> 10 powi floor_log 10 x" by (intro power_int_increasing) simp_all
  then show "10 powi a \<le> of_int m * (10::real) powi (e - (int n - 1))" using sr(3) by simp
  have h2: "(10::real) powi floor_log 10 x < 10 powi b" using assms(5) fb(1) by simp
  have "floor_log 10 x < b" using powi_less_imp_less [OF _ h2] by simp
  then have "(10::real) powi (floor_log 10 x + 1) \<le> 10 powi b" by (intro power_int_increasing) simp_all
  then show "of_int m * (10::real) powi (e - (int n - 1)) \<le> 10 powi b" using sr(4) by simp
qed

section \<open>Properties of the prefix table and of the rendering\<close>

lemma nat_digits_small: "n < 10 \<Longrightarrow> nat_digits n = [48 + n]"
  by (subst nat_digits.simps) simp

lemma nat_digits_nonempty: "nat_digits n \<noteq> []"
  by (subst nat_digits.simps) simp

lemma nat_digits_large: "10 \<le> n \<Longrightarrow> 2 \<le> length (nat_digits n)"
proof -
  assume "10 \<le> n"
  then have "nat_digits n = nat_digits (n div 10) @ [48 + n mod 10]"
    by (subst nat_digits.simps) simp
  moreover have "1 \<le> length (nat_digits (n div 10))"
    using nat_digits_nonempty [of "n div 10"] by (cases "nat_digits (n div 10)") auto
  ultimately show ?thesis by simp
qed

lemma prefixKey_in_table:
  assumes "- 4 \<le> e" "e \<le> 4"
  shows "\<exists>pre. prefixDict (prefixKey e) = Some pre"
proof -
  from assms have "e = - 4 \<or> e = - 3 \<or> e = - 2 \<or> e = - 1 \<or> e = 0
      \<or> e = 1 \<or> e = 2 \<or> e = 3 \<or> e = 4" by arith
  then show ?thesis
    by (elim disjE) (simp_all add: prefixDict_def prefixKey_def nat_digits_small ustr_def)
qed

lemma prefixKey_not_in_table:
  assumes "e < - 4 \<or> 4 < e"
  shows "prefixDict (prefixKey e) = None"
proof (cases "nat \<bar>e\<bar> < 10")
  case True
  then have "nat_digits (nat \<bar>e\<bar>) = [48 + nat \<bar>e\<bar>]" by (rule nat_digits_small)
  moreover have "5 \<le> nat \<bar>e\<bar>" using assms by auto
  ultimately show ?thesis
    by (auto simp: prefixDict_def prefixKey_def ustr_def)
next
  case False
  then have "2 \<le> length (nat_digits (nat \<bar>e\<bar>))" by (intro nat_digits_large) simp
  then have "length (prefixKey e) \<noteq> 2" by (simp add: prefixKey_def)
  then show ?thesis
    by (auto simp: prefixDict_def ustr_def)
qed

lemma parse_spec_empty:
  "parse_spec [] = Inr \<lparr>fill = 32, align = AlignRight, sign = SignMinus, alternate = False,
     width = 0, thousands = None\<rparr>"
  by (simp add: parse_spec_def take_align_def take_sign_def take_char_def digits_value_def)

lemma g_parts_minus: "g_parts alt p (- x) = g_parts alt p x"
  unfolding g_parts_def abs_minus_cancel neg_equal_0_iff_equal by (rule refl)

lemma format_g_minus:
  assumes "0 < y"
  shows "format_g [] p (- y) = map_sum id (\<lambda>t. 45 # t) (format_g [] p y)"
  using assms
  by (simp add: format_g_def parse_spec_empty render_g_def g_parts_minus sign_of_def Let_def
      split: prod.splits)

lemma float_of_decimal_minus:
  "float_of_decimal (- q) =
     (case float_of_decimal q of Finite r \<Rightarrow> Finite (- r) | PosInf \<Rightarrow> NegInf | NegInf \<Rightarrow> PosInf)"
  by (simp add: float_of_decimal_def)

lemma round_e_minus:
  "round_e p (- x) =
     (case round_e p x of Finite r \<Rightarrow> Finite (- r) | PosInf \<Rightarrow> NegInf | NegInf \<Rightarrow> PosInf)"
proof (cases "x = 0")
  case True
  then show ?thesis by (simp add: round_e_def)
next
  case False
  obtain m e where me: "sig_round (p + 1) \<bar>x\<bar> = (m, e)" by (cases "sig_round (p + 1) \<bar>x\<bar>")
  have "sgn (- x) * real_of_int m * 10 powi (e - int p) = - (sgn x * real_of_int m * 10 powi (e - int p))"
    by (simp add: sgn_minus)
  then show ?thesis using False me
    by (simp add: round_e_def float_of_decimal_minus del: float64.case)
qed

lemma round_e_positive:
  assumes "0 < x" "round_e p x = Finite r"
  shows "0 < r"
proof -
  obtain m e where me: "sig_round (p + 1) \<bar>x\<bar> = (m, e)" by (cases "sig_round (p + 1) \<bar>x\<bar>")
  have "10 ^ (p + 1 - 1) \<le> m" using sig_round_cases(1) [OF _ _ me] assms(1) by simp
  then have "0 < m" by (smt (verit) zero_less_power)
  then have "0 < sgn x * real_of_int m * 10 powi (e - int p)" using assms(1) by simp
  moreover have "r = sgn x * real_of_int m * 10 powi (e - int p)"
    using assms me by (simp add: round_e_def float_of_decimal_def split: if_splits)
  ultimately show ?thesis by simp
qed

lemma shortenedDigits_positive: "0 < r \<Longrightarrow> 0 < shortenedDigits r"
  by (simp add: shortenedDigits_def)

lemma baseThousand_minus: "baseThousand (- r) = baseThousand r"
  by (simp add: baseThousand_def)

lemma shortenedDigits_minus: "shortenedDigits (- r) = - shortenedDigits r"
  by (simp add: shortenedDigits_def baseThousand_minus)

lemma formatSI_minus:
  assumes "0 < x"
  shows "formatSI (- x) p [] = map_sum id (\<lambda>t. 45 # t) (formatSI x p [])"
proof (cases "round_e p x")
  case (Finite r)
  have r0: "0 < r" using round_e_positive [OF assms Finite] .
  have neg: "round_e p (- x) = Finite (- r)" by (simp add: round_e_minus Finite)
  show ?thesis using assms
    by (simp add: formatSI_def neg Finite baseThousand_minus shortenedDigits_minus
        format_g_minus [OF r0] format_g_minus [OF shortenedDigits_positive [OF r0]]
        sum.map_comp comp_def split: option.splits)
next
  case PosInf
  then show ?thesis using assms by (simp add: formatSI_def round_e_minus)
next
  case NegInf
  then show ?thesis using assms by (simp add: formatSI_def round_e_minus)
qed

section \<open>Evaluating the model at a concrete input\<close>

lemma digits_w_numeral:
  "digits_w (numeral k) m = digits_w (pred_numeral k) (m div 10) @ [48 + m mod 10]"
proof -
  have "digits_w (Suc (pred_numeral k)) m = digits_w (pred_numeral k) (m div 10) @ [48 + m mod 10]"
    by (rule digits_w.simps)
  then show ?thesis by (simp only: numeral_eq_Suc [symmetric])
qed

lemma sig_round_eval:
  assumes "0 < x" "10 powi e \<le> x" "x < 10 powi (e + 1)"
  shows "sig_round n x =
     (let m = round_half_even (x / 10 powi (e - (int n - 1)))
      in if m = 10 ^ n then (10 ^ (n - 1), e + 1) else (m, e))"
  using floor_log_unique [of 10 x e] assms by (simp add: sig_round_def)

lemma baseThousand_eval:
  assumes "1000 powi e \<le> \<bar>r\<bar>" "\<bar>r\<bar> < 1000 powi (e + 1)"
  shows "baseThousand r = e"
proof -
  have "0 < (1000::real) powi e" by simp
  then have "0 < \<bar>r\<bar>" using assms(1) by linarith
  then show ?thesis using floor_log_unique [of 1000 "\<bar>r\<bar>" e] assms by (simp add: baseThousand_def)
qed

lemma g_parts_eval:
  assumes "x \<noteq> 0" "sig_round (max 1 p) \<bar>x\<bar> = (m, e)"
  shows "g_parts alt p x =
     (let ds = digits_w (max 1 p) (nat m);
          use_exp = (e < - 4 \<or> int (max 1 p) \<le> e);
          (ip, fr) = (if use_exp then (take 1 ds, drop 1 ds)
                      else if 0 \<le> e then (take (nat e + 1) ds, drop (nat e + 1) ds)
                      else ([48], replicate (nat (- e - 1)) 48 @ ds));
          fr' = (if alt then fr else strip_zeros fr);
          point = (if alt then [46] else if fr' = [] then [] else [46]);
          ex = (if use_exp then exp_suffix e else [])
      in (ip, point @ fr' @ ex))"
  using assms by (simp add: g_parts_def Let_def)

lemma format_g_default:
  assumes "g_parts False p x = (ip, rest)" "ip \<noteq> []"
  shows "format_g [] p x = Inr (sign_of SignMinus x @ ip @ rest)"
proof -
  have "nat (max (int (length ip)) 1) = length ip" using assms(2) by (cases ip) auto
  then show ?thesis using assms(1)
    by (simp add: format_g_def parse_spec_empty render_g_def group_digits_def Let_def)
qed

lemma round_e_eval:
  assumes "number \<noteq> 0" "sig_round (precision + 1) \<bar>number\<bar> = (m, e)"
    "\<bar>real_of_int m * 10 powi (e - int precision)\<bar> < 2 ^ 1024 - 2 ^ 970"
  shows "round_e precision number = Finite (sgn number * of_int m * 10 powi (e - int precision))"
proof -
  define v where "v = sgn number * real_of_int m * 10 powi (e - int precision)"
  have "\<bar>v\<bar> = \<bar>real_of_int m * 10 powi (e - int precision)\<bar>"
    using assms(1) by (simp add: v_def abs_mult abs_sgn_eq)
  then have "\<bar>v\<bar> < 2 ^ 1024 - 2 ^ 970" using assms(3) by simp
  then have "\<not> 2 ^ 1024 - 2 ^ 970 \<le> v" "\<not> v \<le> - (2 ^ 1024 - 2 ^ 970)" by linarith+
  then have "float_of_decimal v = Finite v" by (simp only: float_of_decimal_def if_False)
  then show ?thesis using assms(1,2) by (simp add: round_e_def v_def)
qed

lemma formatSI_eval_in_table:
  assumes "number \<noteq> 0" "round_e p number = Finite r" "baseThousand r = e"
    "prefixDict (prefixKey e) = Some pre" "shortenedDigits r = sd" "format_g s p sd = res"
  shows "formatSI number p s = map_sum id (\<lambda>t. t @ ustr '' '' @ pre) res"
  using assms by (simp add: formatSI_def)

lemma formatSI_eval_out_of_table:
  assumes "number \<noteq> 0" "round_e p number = Finite r" "baseThousand r = e"
    "prefixDict (prefixKey e) = None" "format_g s p r = res"
  shows "formatSI number p s = map_sum id (\<lambda>t. t @ ustr '' '') res"
  using assms by (simp add: formatSI_def)

section \<open>The scaled number and its tier\<close>

lemma mantissa_bounds:
  assumes "r \<noteq> 0"
  shows "1 \<le> \<bar>shortenedDigits r\<bar>" and "\<bar>shortenedDigits r\<bar> < 1000"
proof -
  note fb = floor_log_bounds [of 1000 "\<bar>r\<bar>", simplified, OF assms]
  have p0: "0 < (1000::real) powi baseThousand r" by simp
  have up: "(1000::real) powi (baseThousand r + 1) = 1000 powi baseThousand r * 1000"
    by (simp add: power_int_add)
  have ab: "\<bar>shortenedDigits r\<bar> = \<bar>r\<bar> / 1000 powi baseThousand r"
    by (simp add: shortenedDigits_def abs_divide)
  show "1 \<le> \<bar>shortenedDigits r\<bar>"
    unfolding ab using fb(1) p0 by (simp add: baseThousand_def)
  have "\<bar>r\<bar> < 1000 powi baseThousand r * 1000"
    using fb(2) unfolding baseThousand_def [symmetric] up .
  then show "\<bar>shortenedDigits r\<bar> < 1000"
    unfolding ab using p0 by (simp add: field_simps)
qed

lemma baseThousand_bounds:
  assumes "r \<noteq> 0" "1000 powi a \<le> \<bar>r\<bar>" "\<bar>r\<bar> < 1000 powi (b + 1)"
  shows "a \<le> baseThousand r" and "baseThousand r \<le> b"
proof -
  note fb = floor_log_bounds [of 1000 "\<bar>r\<bar>", simplified, OF assms(1)]
  have h1: "(1000::real) powi a < 1000 powi (baseThousand r + 1)"
    using assms(2) fb(2) by (simp add: baseThousand_def)
  have "a < baseThousand r + 1" using powi_less_imp_less [OF _ h1] by simp
  then show "a \<le> baseThousand r" by simp
  have h2: "(1000::real) powi baseThousand r < 1000 powi (b + 1)"
    using assms(3) fb(1) by (simp add: baseThousand_def)
  have "baseThousand r < b + 1" using powi_less_imp_less [OF _ h2] by simp
  then show "baseThousand r \<le> b" by simp
qed

lemma round_e_range:
  assumes "10 powi a \<le> \<bar>x\<bar>" "\<bar>x\<bar> < 10 powi b" "(10::real) powi b < 2 ^ 1024 - 2 ^ 970"
  shows "\<exists>r. round_e p x = Finite r \<and> 10 powi a \<le> \<bar>r\<bar> \<and> \<bar>r\<bar> \<le> 10 powi b"
proof -
  have "0 < (10::real) powi a" by simp
  then have x0: "0 < \<bar>x\<bar>" using assms(1) by linarith
  then have xn: "x \<noteq> 0" by simp
  obtain m e where me: "sig_round (p + 1) \<bar>x\<bar> = (m, e)" by (cases "sig_round (p + 1) \<bar>x\<bar>")
  define v where "v = real_of_int m * 10 powi (e - int p)"
  have ve: "real_of_int m * 10 powi (e - (int (p + 1) - 1)) = v" by (simp add: v_def)
  have vr: "10 powi a \<le> v" "v \<le> 10 powi b"
    using sig_round_range [OF x0 _ me assms(1,2)] unfolding ve by simp_all
  have v0: "0 < v" using vr(1) \<open>0 < (10::real) powi a\<close> by linarith
  then have av: "\<bar>v\<bar> = v" by simp
  have "\<bar>v\<bar> < 2 ^ 1024 - 2 ^ 970" using vr(2) assms(3) av by linarith
  then have "round_e p x = Finite (sgn x * real_of_int m * 10 powi (e - int p))"
    unfolding v_def by (rule round_e_eval [OF xn me])
  moreover have "\<bar>sgn x * real_of_int m * 10 powi (e - int p)\<bar> = v"
    using xn av by (simp add: v_def abs_mult abs_sgn_eq)
  ultimately show ?thesis using vr by auto
qed

section \<open>The rendered digits of a scaled number\<close>

lemma round_half_even_less:
  assumes "y < of_int k + 1 / 2"
  shows "round_half_even y \<le> k"
proof -
  have "y < of_int (k + 1)" using assms by simp
  then have "\<lfloor>y\<rfloor> < k + 1" by (simp only: floor_less_iff)
  then have f: "\<lfloor>y\<rfloor> \<le> k" by simp
  show ?thesis
  proof (cases "\<lfloor>y\<rfloor> = k")
    case True
    then have "y - of_int \<lfloor>y\<rfloor> < 1 / 2" using assms by simp
    then show ?thesis using True by (simp add: round_half_even_def Let_def)
  next
    case False
    with f have "\<lfloor>y\<rfloor> + 1 \<le> k" by simp
    then show ?thesis using f by (simp add: round_half_even_def Let_def)
  qed
qed

lemma sig_round_3_fixed:
  assumes "1 \<le> y" "y < 9995 / 10"
  shows "\<exists>m e. sig_round 3 y = (m, e) \<and> 100 \<le> m \<and> m < 1000 \<and> 0 \<le> e \<and> e \<le> 2"
proof -
  have y0: "0 < y" using assms(1) by simp
  obtain m e where me: "sig_round 3 y = (m, e)" by (cases "sig_round 3 y")
  have m: "100 \<le> m" "m < 1000" using sig_round_cases(1,2) [OF y0 _ me] by simp_all
  define fl where "fl = floor_log 10 y"
  note fb = floor_log_bounds [of 10 y, simplified, OF y0]
  have h1: "(10::real) powi 0 < 10 powi (fl + 1)" using assms(1) fb(2) by (simp add: fl_def)
  have fl0: "0 \<le> fl" using powi_less_imp_less [OF _ h1] by simp
  have h2: "(10::real) powi fl < 10 powi 3" using assms(2) fb(1) by (simp add: fl_def)
  have fl2: "fl \<le> 2" using powi_less_imp_less [OF _ h2] by simp
  define m0 where "m0 = round_half_even (y / 10 powi (fl - 2))"
  have sr: "(m, e) = (if m0 = 1000 then (100, fl + 1) else (m0, fl))"
    using me by (auto simp: sig_round_def Let_def fl_def m0_def split: if_splits)
  have "0 \<le> e \<and> e \<le> 2"
  proof (cases "fl = 2")
    case True
    have "y < of_int 999 + 1 / 2" using assms(2) by simp
    then have "round_half_even y \<le> 999" by (rule round_half_even_less)
    then have "m0 \<noteq> 1000" by (simp add: m0_def True)
    then show ?thesis using sr True by simp
  next
    case False
    then have "fl \<le> 1" using fl2 by simp
    then show ?thesis using sr fl0 by (auto split: if_splits)
  qed
  then show ?thesis using me m by blast
qed

lemma digits_w_3:
  "digits_w 3 m = [48 + m div 100 mod 10, 48 + m div 10 mod 10, 48 + m mod 10]"
proof -
  have "digits_w (Suc (Suc (Suc 0))) m
      = [48 + m div 10 div 10 mod 10, 48 + m div 10 mod 10, 48 + m mod 10]"
    by simp
  moreover have "m div 10 div 10 = m div 100" by (simp add: div_mult2_eq [symmetric])
  moreover have "(3::nat) = Suc (Suc (Suc 0))" by simp
  ultimately show ?thesis by (simp only:)
qed

lemma is_digit_char: "d < 10 \<Longrightarrow> is_digit (48 + d)"
  by (simp add: is_digit_def)

lemma decimal_value_plain:
  assumes "ip \<noteq> []" "list_all is_digit ip"
  shows "decimal_value ip = Some (real (digits_value ip))"
proof -
  have h: "hd ip \<noteq> 45" using assms by (cases ip) (auto simp: is_digit_def)
  have t: "takeWhile is_digit ip = ip" "dropWhile is_digit ip = []"
    using assms(2) by (simp_all add: list_all_iff)
  show ?thesis
    unfolding decimal_value_def Let_def using h assms(1) by (simp add: t digits_value_def)
qed

lemma decimal_value_point:
  assumes "ip \<noteq> []" "list_all is_digit ip" "fr \<noteq> []" "list_all is_digit fr"
  shows "decimal_value (ip @ 46 # fr)
           = Some (real (digits_value ip) + real (digits_value fr) / 10 ^ length fr)"
proof -
  have h: "hd (ip @ 46 # fr) \<noteq> 45" using assms(1,2) by (cases ip) (auto simp: is_digit_def)
  have nd: "\<not> is_digit 46" by (simp add: is_digit_def)
  have t: "takeWhile is_digit (ip @ 46 # fr) = ip" "dropWhile is_digit (ip @ 46 # fr) = 46 # fr"
    using assms(2) nd by (simp_all add: list_all_iff takeWhile_append2 dropWhile_append2)
  show ?thesis
    unfolding decimal_value_def Let_def using h assms(1,3,4) by (simp add: t)
qed

lemma decimal_value_minus:
  assumes "u \<noteq> []" "is_digit (hd u)" "decimal_value u = Some w"
  shows "decimal_value (45 # u) = Some (- w)"
proof -
  have h: "hd u \<noteq> 45" using assms(2) by (auto simp: is_digit_def)
  show ?thesis
    using assms(3) unfolding decimal_value_def Let_def using h assms(1)
    by (simp split: if_splits)
qed

lemma strip_zeros_last: "d \<noteq> 48 \<Longrightarrow> strip_zeros (ds @ [d]) = ds @ [d]"
  by (simp add: strip_zeros_def)

lemma strip_zeros_zero: "strip_zeros (ds @ [48]) = strip_zeros ds"
  by (simp add: strip_zeros_def)

lemma strip_zeros_Nil: "strip_zeros [] = []"
  by (simp add: strip_zeros_def)

lemma fixed_text_value:
  assumes a: "1 \<le> a" "a < 10" and b: "b < 10" and c: "c < 10" and e: "e \<le> 2"
  shows "\<exists>w. decimal_value
            (take (e + 1) [48 + a, 48 + b, 48 + c]
               @ (if strip_zeros (drop (e + 1) [48 + a, 48 + b, 48 + c]) = [] then [] else [46])
               @ strip_zeros (drop (e + 1) [48 + a, 48 + b, 48 + c])) = Some w
          \<and> 1 \<le> w \<and> w < 1000"
proof -
  have dA: "is_digit (48 + a)" and dB: "is_digit (48 + b)" and dC: "is_digit (48 + c)"
    using a b c by (simp_all add: is_digit_char)
  have ra: "1 \<le> real a" "real a \<le> 9" and rb: "real b \<le> 9" and rc: "real c \<le> 9"
    using a b c by simp_all
  from e have "e = 0 \<or> e = 1 \<or> e = 2" by arith
  then show ?thesis
  proof (elim disjE)
    assume e2: "e = 2"
    have "decimal_value [48 + a, 48 + b, 48 + c]
        = Some (real (digits_value [48 + a, 48 + b, 48 + c]))"
      by (rule decimal_value_plain) (simp_all add: dA dB dC)
    moreover have "real (digits_value [48 + a, 48 + b, 48 + c]) = 100 * real a + 10 * real b + real c"
      by (simp add: digits_value_def)
    ultimately show ?thesis using ra rb rc by (simp add: e2 strip_zeros_Nil)
  next
    assume e1: "e = 1"
    show ?thesis
    proof (cases "c = 0")
      case True
      have "decimal_value [48 + a, 48 + b] = Some (real (digits_value [48 + a, 48 + b]))"
        by (rule decimal_value_plain) (simp_all add: dA dB)
      moreover have "real (digits_value [48 + a, 48 + b]) = 10 * real a + real b"
        by (simp add: digits_value_def)
      moreover have "strip_zeros [48 + c] = []"
        using strip_zeros_zero [of "[]"] by (simp add: True strip_zeros_Nil)
      ultimately show ?thesis using ra rb by (simp add: e1)
    next
      case False
      have sz: "strip_zeros [48 + c] = [48 + c]"
        using strip_zeros_last [of "48 + c" "[]"] False by simp
      have "decimal_value ([48 + a, 48 + b] @ 46 # [48 + c])
          = Some (real (digits_value [48 + a, 48 + b])
                  + real (digits_value [48 + c]) / 10 ^ length [48 + c])"
        by (rule decimal_value_point) (simp_all add: dA dB dC)
      moreover have "real (digits_value [48 + a, 48 + b]) = 10 * real a + real b"
        "real (digits_value [48 + c]) = real c"
        by (simp_all add: digits_value_def)
      ultimately show ?thesis using ra rb rc by (simp add: e1 sz)
    qed
  next
    assume e0: "e = 0"
    have ip: "decimal_value ([48 + a] @ 46 # fr)
          = Some (real (digits_value [48 + a]) + real (digits_value fr) / 10 ^ length fr)"
      if "fr \<noteq> []" "list_all is_digit fr" for fr
      using that by (intro decimal_value_point) (simp_all add: dA)
    have va: "real (digits_value [48 + a]) = real a" by (simp add: digits_value_def)
    show ?thesis
    proof (cases "c = 0")
      case True
      note c0 = True
      show ?thesis
      proof (cases "b = 0")
        case True
        have sz: "strip_zeros [48 + b, 48 + c] = []"
          using strip_zeros_zero [of "[48]"] strip_zeros_zero [of "[]"]
          by (simp add: True c0 strip_zeros_Nil)
        have "decimal_value [48 + a] = Some (real (digits_value [48 + a]))"
          by (rule decimal_value_plain) (simp_all add: dA)
        then show ?thesis using ra by (simp add: e0 sz va)
      next
        case False
        have "strip_zeros ([48 + b] @ [48]) = strip_zeros [48 + b]" by (rule strip_zeros_zero)
        moreover have "strip_zeros [48 + b] = [48 + b]"
          using strip_zeros_last [of "48 + b" "[]"] False by simp
        ultimately have sz: "strip_zeros [48 + b, 48 + c] = [48 + b]" by (simp add: c0)
        have "real (digits_value [48 + b]) = real b" by (simp add: digits_value_def)
        then show ?thesis using ip [of "[48 + b]"] ra rb by (simp add: e0 sz va dB)
      qed
    next
      case False
      have sz: "strip_zeros [48 + b, 48 + c] = [48 + b, 48 + c]"
        using strip_zeros_last [of "48 + c" "[48 + b]"] False by simp
      have "real (digits_value [48 + b, 48 + c]) = 10 * real b + real c"
        by (simp add: digits_value_def)
      then have dv: "decimal_value [48 + a, 46, 48 + b, 48 + c]
          = Some (real a + (10 * real b + real c) / 100)"
        using ip [of "[48 + b, 48 + c]"] by (simp add: va dB dC)
      have "10 * real b + real c \<le> 99" using rb rc by linarith
      then have q: "(10 * real b + real c) / 100 \<le> 99 / 100"
        by (intro divide_right_mono) simp_all
      have "0 \<le> (10 * real b + real c) / 100" by simp
      with q ra have "1 \<le> real a + (10 * real b + real c) / 100"
        "real a + (10 * real b + real c) / 100 < 1000" by linarith+
      with dv show ?thesis by (simp add: e0 sz)
    qed
  qed
qed

lemma format_g_fixed_value:
  assumes "1 \<le> \<bar>y\<bar>" "\<bar>y\<bar> < 9995 / 10"
  shows "\<exists>t v. format_g [] 3 y = Inr t \<and> decimal_value t = Some v \<and> 1 \<le> \<bar>v\<bar> \<and> \<bar>v\<bar> < 1000"
proof -
  have y0: "y \<noteq> 0" using assms(1) by auto
  obtain m e where me: "sig_round 3 \<bar>y\<bar> = (m, e)" and m: "100 \<le> m" "m < 1000"
    and e: "0 \<le> e" "e \<le> 2"
    using sig_round_3_fixed [OF assms] by blast
  define a b c where "a = nat m div 100 mod 10" and "b = nat m div 10 mod 10" and "c = nat m mod 10"
  have abc: "1 \<le> a" "a < 10" "b < 10" "c < 10" using m by (simp_all add: a_def b_def c_def)
  define k where "k = nat e"
  have k: "k \<le> 2" "e = int k" using e by (simp_all add: k_def)
  define ds where "ds = [48 + a, 48 + b, 48 + c]"
  have ds: "digits_w 3 (nat m) = ds" by (simp only: digits_w_3 ds_def a_def b_def c_def)
  define ip where "ip = take (k + 1) ds"
  define rest where "rest = (if strip_zeros (drop (k + 1) ds) = [] then [] else [46])
      @ strip_zeros (drop (k + 1) ds)"
  have me': "sig_round (max 1 3) \<bar>y\<bar> = (m, int k)" using me k by simp
  have gp: "g_parts False 3 y = (ip, rest)"
    using g_parts_eval [OF y0 me', of False] k(1)
    by (simp add: Let_def ds ip_def rest_def)
  have ipn: "ip \<noteq> []" by (simp add: ip_def ds_def)
  have fg: "format_g [] 3 y = Inr (sign_of SignMinus y @ ip @ rest)"
    by (rule format_g_default [OF gp ipn])
  obtain w where w: "decimal_value (ip @ rest) = Some w" "1 \<le> w" "w < 1000"
    using fixed_text_value [OF abc k(1)] unfolding ip_def rest_def ds_def by blast
  show ?thesis
  proof (cases "y < 0")
    case True
    have "hd (ip @ rest) = 48 + a" by (simp add: ip_def ds_def)
    then have "is_digit (hd (ip @ rest))" using abc by (simp add: is_digit_char)
    then have "decimal_value (45 # ip @ rest) = Some (- w)"
      using ipn w(1) by (intro decimal_value_minus) simp_all
    then show ?thesis using fg w True by (auto simp: sign_of_def)
  next
    case False
    then show ?thesis using fg w by (auto simp: sign_of_def)
  qed
qed

lemma sig_round_below_pico:
  assumes "99995 / 10 ^ 17 \<le> y" "y < 1 / 10 ^ 12"
  shows "sig_round 4 y = (1000, - 12)"
proof -
  have y0: "0 < y" using assms(1) by (rule less_le_trans [rotated]) simp
  have lo: "10 powi (- 13) \<le> y" using assms(1) by (simp add: power_int_minus field_simps)
  have hi: "y < 10 powi (- 13 + 1)" using assms(2) by (simp add: power_int_minus field_simps)
  define z where "z = y / 10 powi (- 13 - (int 4 - 1))"
  have z: "z = y * 10 ^ 16" by (simp add: z_def power_int_minus field_simps)
  have zl: "of_int 9999 + 1 / 2 \<le> z" using assms(1) unfolding z by (simp add: field_simps)
  have zu: "z < of_int 10000" using assms(2) unfolding z by (simp add: field_simps)
  have fz: "\<lfloor>z\<rfloor> = 9999" using zl zu by (intro floor_unique) simp_all
  have "round_half_even z = 10000"
    using zl by (simp add: round_half_even_def Let_def fz)
  then have rz: "round_half_even (y * 10000000000000000) = 10000" by (simp add: z)
  show ?thesis
    using sig_round_eval [OF y0 lo hi, of 4] by (simp add: rz)
qed

section \<open>Values at the inputs named by the specification\<close>

lemma format_g_1: "format_g [] 3 1 = Inr (ustr ''1'')"
proof -
  have sr: "sig_round (max 1 3) \<bar>1\<bar> = (100, 0)"
    using sig_round_eval [of 1 0 3] by (simp add: round_half_even_def Let_def)
  have gp: "g_parts False 3 1 = (ustr ''1'', [])"
    using g_parts_eval [of 1 3 100 0 False] sr
    by (simp add: Let_def digits_w_numeral strip_zeros_def ustr_def)
  show ?thesis using format_g_default [OF gp] by (simp add: ustr_def sign_of_def)
qed

lemma sig_round_pow10: "sig_round 4 \<bar>10 powi k\<bar> = (1000, k)"
proof -
  have "(10::real) powi k / 10 powi (k - 3) = 1000"
    using power_int_diff [of "10::real" k "k - 3"] by simp
  then show ?thesis
    using sig_round_eval [of "10 powi k" k 4] power_int_strict_increasing [of k "k + 1" "10::real"]
    by (simp add: round_half_even_def Let_def)
qed

lemma round_e_pow10:
  assumes "(10::real) powi k < 2 ^ 1024 - 2 ^ 970"
  shows "round_e 3 (10 powi k) = Finite (10 powi k)"
proof -
  have "(1000::real) * 10 powi (k - 3) = 10 powi k"
    using power_int_add [of "10::real" 3 "k - 3"] by simp
  then show ?thesis using round_e_eval [of "10 powi k" 3 1000 k] sig_round_pow10 [of k] assms
    by simp
qed

lemma pow1000: "(1000::real) powi e = 10 powi (3 * e)"
proof -
  have "(1000::real) = 10 powi 3" by simp
  then show ?thesis by (simp only: power_int_mult [symmetric])
qed

lemma baseThousand_pow1000: "baseThousand (1000 powi e) = e"
  using baseThousand_eval [of e "1000 powi e"] power_int_strict_increasing [of e "e + 1" "1000::real"]
  by simp

lemma shortenedDigits_pow1000: "shortenedDigits (1000 powi e) = 1"
  by (simp add: shortenedDigits_def baseThousand_pow1000)

lemma formatSI_pow1000:
  assumes "(1000::real) powi e < 2 ^ 1024 - 2 ^ 970" "prefixDict (prefixKey e) = Some pre"
  shows "formatSI (1000 powi e) 3 [] = Inr (ustr ''1 '' @ pre)"
proof -
  have re: "round_e 3 (1000 powi e) = Finite (1000 powi e)"
    using round_e_pow10 [of "3 * e"] assms(1) by (simp only: pow1000)
  have "formatSI (1000 powi e) 3 [] = map_sum id (\<lambda>t. t @ ustr '' '' @ pre) (Inr (ustr ''1''))"
    by (rule formatSI_eval_in_table
          [OF _ re baseThousand_pow1000 assms(2) shortenedDigits_pow1000 format_g_1]) simp
  then show ?thesis by (simp add: ustr_def)
qed

lemma prefixDict_0: "prefixDict (prefixKey 0) = Some []"
  by (simp add: prefixDict_def prefixKey_def nat_digits_small ustr_def)

lemma prefixDict_1: "prefixDict (prefixKey 1) = Some (ustr ''k'')"
  by (simp add: prefixDict_def prefixKey_def nat_digits_small ustr_def)

text \<open>999.6\<close>

lemma round_e_999_6: "round_e 3 (9996 / 10) = Finite (9996 / 10)"
proof -
  have sr: "sig_round 4 \<bar>9996 / 10\<bar> = (9996, 2)"
    using sig_round_eval [of "9996 / 10" 2 4] by (simp add: round_half_even_def Let_def)
  show ?thesis using round_e_eval [of "9996 / 10" 3 9996 2] sr by simp
qed

lemma baseThousand_999_6: "baseThousand (9996 / 10) = 0"
  using baseThousand_eval [of 0 "9996 / 10"] by simp

lemma format_g_999_6: "format_g [] 3 (9996 / 10) = Inr (ustr ''1e+03'')"
proof -
  have sr: "sig_round 3 \<bar>9996 / 10\<bar> = (100, 3)"
    using sig_round_eval [of "9996 / 10" 2 3] by (simp add: round_half_even_def Let_def)
  have gp: "g_parts False 3 (9996 / 10) = (ustr ''1'', ustr ''e+03'')"
    using g_parts_eval [of "9996 / 10" 3 100 3 False] sr
    by (simp add: Let_def digits_w_numeral strip_zeros_def exp_suffix_def ustr_def)
  show ?thesis using format_g_default [OF gp] by (simp add: ustr_def sign_of_def)
qed

lemma formatSI_999_6: "formatSI (9996 / 10) 3 [] = Inr (ustr ''1e+03 '')"
proof -
  have sd: "shortenedDigits (9996 / 10) = 9996 / 10"
    using baseThousand_999_6 by (simp add: shortenedDigits_def)
  have "formatSI (9996 / 10) 3 []
      = map_sum id (\<lambda>t. t @ ustr '' '' @ []) (Inr (ustr ''1e+03''))"
    by (rule formatSI_eval_in_table
          [OF _ round_e_999_6 baseThousand_999_6 prefixDict_0 sd format_g_999_6]) simp
  then show ?thesis by (simp add: ustr_def)
qed

text \<open>999.96\<close>

lemma round_e_999_96: "round_e 3 (99996 / 100) = Finite 1000"
proof -
  have sr: "sig_round 4 \<bar>99996 / 100\<bar> = (1000, 3)"
    using sig_round_eval [of "99996 / 100" 2 4] by (simp add: round_half_even_def Let_def)
  show ?thesis using round_e_eval [of "99996 / 100" 3 1000 3] sr by simp
qed

lemma baseThousand_1000: "baseThousand 1000 = 1"
  using baseThousand_pow1000 [of 1] by simp

lemma shortenedDigits_1000: "shortenedDigits 1000 = 1"
  using shortenedDigits_pow1000 [of 1] by simp

lemma formatSI_999_96: "formatSI (99996 / 100) 3 [] = Inr (ustr ''1 k'')"
proof -
  have "formatSI (99996 / 100) 3 []
      = map_sum id (\<lambda>t. t @ ustr '' '' @ ustr ''k'') (Inr (ustr ''1''))"
    by (rule formatSI_eval_in_table
          [OF _ round_e_999_96 baseThousand_1000 prefixDict_1 shortenedDigits_1000 format_g_1])
       simp
  then show ?thesis by (simp add: ustr_def)
qed

text \<open>1234\<close>

lemma round_e_1234: "round_e 3 1234 = Finite 1234"
proof -
  have sr: "sig_round 4 \<bar>1234\<bar> = (1234, 3)"
    using sig_round_eval [of 1234 3 4] by (simp add: round_half_even_def Let_def)
  show ?thesis using round_e_eval [of 1234 3 1234 3] sr by simp
qed

lemma baseThousand_1234: "baseThousand 1234 = 1"
  using baseThousand_eval [of 1 1234] by simp

lemma shortenedDigits_1234: "shortenedDigits 1234 = 1234 / 1000"
  using baseThousand_1234 by (simp add: shortenedDigits_def)

lemma format_g_1_234: "format_g [] 3 (1234 / 1000) = Inr (ustr ''1.23'')"
proof -
  have sr: "sig_round 3 \<bar>1234 / 1000\<bar> = (123, 0)"
    using sig_round_eval [of "1234 / 1000" 0 3] by (simp add: round_half_even_def Let_def)
  have gp: "g_parts False 3 (1234 / 1000) = (ustr ''1'', ustr ''.23'')"
    using g_parts_eval [of "1234 / 1000" 3 123 0 False] sr
    by (simp add: Let_def digits_w_numeral strip_zeros_def ustr_def)
  show ?thesis using format_g_default [OF gp] by (simp add: ustr_def sign_of_def)
qed

lemma formatSI_1234: "formatSI 1234 3 [] = Inr (ustr ''1.23 k'')"
proof -
  have "formatSI 1234 3 []
      = map_sum id (\<lambda>t. t @ ustr '' '' @ ustr ''k'') (Inr (ustr ''1.23''))"
    by (rule formatSI_eval_in_table
          [OF _ round_e_1234 baseThousand_1234 prefixDict_1 shortenedDigits_1234 format_g_1_234])
       simp
  then show ?thesis by (simp add: ustr_def)
qed

text \<open>1e-13\<close>

lemma round_e_1em13: "round_e 3 (1 / 10 ^ 13) = Finite (1 / 10 ^ 13)"
  using round_e_pow10 [of "- 13"] by (simp add: power_int_minus field_simps)

lemma baseThousand_1em13: "baseThousand (1 / 10 ^ 13) = - 5"
  using baseThousand_eval [of "- 5" "1 / 10 ^ 13"] by (simp add: power_int_minus)

lemma shortenedDigits_1em13: "shortenedDigits (1 / 10 ^ 13) = 100"
  using baseThousand_1em13 by (simp add: shortenedDigits_def power_int_minus)

lemma prefixDict_m5: "prefixDict (prefixKey (- 5)) = None"
  by (rule prefixKey_not_in_table) simp

lemma format_g_1em13: "format_g [] 3 (1 / 10 ^ 13) = Inr (ustr ''1e-13'')"
proof -
  have sr: "sig_round 3 \<bar>1 / 10 ^ 13\<bar> = (100, - 13)"
    using sig_round_eval [of "1 / 10 ^ 13" "- 13" 3]
    by (simp add: round_half_even_def Let_def power_int_minus)
  have gp: "g_parts False 3 (1 / 10 ^ 13) = (ustr ''1'', ustr ''e-13'')"
    using g_parts_eval [of "1 / 10 ^ 13" 3 100 "- 13" False] sr
    by (simp add: Let_def digits_w_numeral strip_zeros_def exp_suffix_def nat_digits.simps ustr_def)
  show ?thesis using format_g_default [OF gp] by (simp add: ustr_def sign_of_def)
qed

lemma format_g_100: "format_g [] 3 100 = Inr (ustr ''100'')"
proof -
  have sr: "sig_round 3 \<bar>100\<bar> = (100, 2)"
    using sig_round_eval [of 100 2 3] by (simp add: round_half_even_def Let_def)
  have gp: "g_parts False 3 100 = (ustr ''100'', [])"
    using g_parts_eval [of 100 3 100 2 False] sr
    by (simp add: Let_def digits_w_numeral strip_zeros_def ustr_def)
  show ?thesis using format_g_default [OF gp] by (simp add: ustr_def sign_of_def)
qed

lemma formatSI_1em13: "formatSI (1 / 10 ^ 13) 3 [] = Inr (ustr ''1e-13 '')"
proof -
  have "formatSI (1 / 10 ^ 13) 3 [] = map_sum id (\<lambda>t. t @ ustr '' '') (Inr (ustr ''1e-13''))"
    by (rule formatSI_eval_out_of_table
          [OF _ round_e_1em13 baseThousand_1em13 prefixDict_m5 format_g_1em13]) simp
  then show ?thesis by (simp add: ustr_def)
qed

text \<open>1e20\<close>

lemma round_e_1e20: "round_e 3 (10 ^ 20) = Finite (10 ^ 20)"
  using round_e_pow10 [of 20] by simp

lemma baseThousand_1e20: "baseThousand (10 ^ 20) = 6"
  using baseThousand_eval [of 6 "10 ^ 20"] by simp

lemma format_g_1e20: "format_g [] 3 (10 ^ 20) = Inr (ustr ''1e+20'')"
proof -
  have sr: "sig_round 3 \<bar>10 ^ 20\<bar> = (100, 20)"
    using sig_round_eval [of "10 ^ 20" 20 3] by (simp add: round_half_even_def Let_def)
  have gp: "g_parts False 3 (10 ^ 20) = (ustr ''1'', ustr ''e+20'')"
    using g_parts_eval [of "10 ^ 20" 3 100 20 False] sr
    by (simp add: Let_def digits_w_numeral strip_zeros_def exp_suffix_def nat_digits.simps ustr_def)
  show ?thesis using format_g_default [OF gp] by (simp add: ustr_def sign_of_def)
qed

text \<open>The largest finite double, \<open>2^1024 - 2^971\<close>\<close>

lemma sig_round_max: "sig_round 4 \<bar>2 ^ 1024 - 2 ^ 971\<bar> = (1798, 308)"
  using sig_round_eval [of "2 ^ 1024 - 2 ^ 971" 308 4] by (simp add: round_half_even_def Let_def)

lemma round_e_max: "round_e 3 (2 ^ 1024 - 2 ^ 971) = PosInf"
  using sig_round_max by (simp add: round_e_def float_of_decimal_def)

text \<open>Zero\<close>

lemma digits_w_0: "digits_w w 0 = replicate w 48"
  by (induction w) (simp_all add: replicate_append_same)

lemma strip_zeros_replicate: "strip_zeros (replicate k 48) = []"
  by (simp add: strip_zeros_def)

lemma g_parts_0: "g_parts False p 0 = ([48], [])"
proof -
  obtain k where k: "max 1 p = Suc k" by (cases "max 1 p") auto
  show ?thesis
    by (simp add: g_parts_def Let_def digits_w_0 k strip_zeros_replicate del: digits_w.simps replicate_Suc)
      (simp add: strip_zeros_replicate)
qed

lemma format_g_0: "format_g [] p 0 = Inr (ustr ''0'')"
  using format_g_default [OF g_parts_0] by (simp add: ustr_def sign_of_def)

text \<open>The double nearest to \<open>1e-12\<close>, which lies just below \<open>10^-12\<close>.\<close>

lemma double_1em12_range:
  "99995 / 10 ^ 17 \<le> \<bar>4951760157141521 / 2 ^ 92 :: real\<bar>"
  "\<bar>4951760157141521 / 2 ^ 92 :: real\<bar> < 1 / 10 ^ 12"
  by simp_all

lemma round_e_double_1em12: "round_e 3 (4951760157141521 / 2 ^ 92) = Finite (1000 powi (- 4))"
proof -
  have sr: "sig_round (3 + 1) \<bar>4951760157141521 / 2 ^ 92\<bar> = (1000, - 12)"
    using sig_round_below_pico [OF double_1em12_range] by simp
  have "round_e 3 (4951760157141521 / 2 ^ 92)
      = Finite (sgn (4951760157141521 / 2 ^ 92) * of_int 1000 * 10 powi (- 12 - int 3))"
    by (rule round_e_eval [OF _ sr]) (simp_all add: power_int_minus)
  then show ?thesis by (simp add: power_int_minus)
qed

lemma formatSI_double_1em12: "formatSI (4951760157141521 / 2 ^ 92) 3 [] = Inr (ustr ''1 p'')"
proof -
  have pk: "prefixDict (prefixKey (- 4)) = Some (ustr ''p'')"
    by (simp add: prefixDict_def prefixKey_def nat_digits_small ustr_def)
  have "formatSI (4951760157141521 / 2 ^ 92) 3 []
      = map_sum id (\<lambda>t. t @ ustr '' '' @ ustr ''p'') (Inr (ustr ''1''))"
    by (rule formatSI_eval_in_table
          [OF _ round_e_double_1em12 baseThousand_pow1000 pk shortenedDigits_pow1000 format_g_1])
       simp
  then show ?thesis by (simp add: ustr_def)
qed

section \<open>Claims about \<open>formatSI\<close>\<close>

text \<open>
  C1, as amended. For every \<open>x\<close> with \<open>1e-12 \<le> |x| < 1e13\<close> (the double \<open>1e-12\<close>, which
  lies just below \<open>10^-12\<close>, and every other number from \<open>9.9995e-13\<close> on, which rounds to at
  least \<open>10^-12\<close>), \<open>formatSI(x, 3, '')\<close> rounds \<open>x\<close> to a finite number \<open>r\<close>, takes as
  exponent the floor of the base-1000 logarithm of \<open>|r|\<close>, which lies between \<open>-4\<close> and \<open>4\<close>
  and so has a prefix in the table, and returns the rendering of the mantissa
  \<open>r / 1000^e\<close>, a space and that prefix. The mantissa has a magnitude of at least 1 and
  below 1000, and so has the number that its rendering denotes, except when rounding at
  the 1000 boundary comes in (a mantissa of magnitude 999.5 or more): of the digits
  rendered there nothing is stated. (The specification starts the range at \<open>1e-13\<close>.)
\<close>

theorem formatSI_scaled_in_table:
  assumes "99995 / 10 ^ 17 \<le> \<bar>x\<bar>" and "\<bar>x\<bar> < 10 ^ 13"
  shows "\<exists>r pre t. round_e 3 x = Finite r
           \<and> baseThousand r = \<lfloor>ln \<bar>r\<bar> / ln 1000\<rfloor>
           \<and> - 4 \<le> baseThousand r \<and> baseThousand r \<le> 4
           \<and> prefixDict (prefixKey (baseThousand r)) = Some pre
           \<and> 1 \<le> \<bar>shortenedDigits r\<bar> \<and> \<bar>shortenedDigits r\<bar> < 1000
           \<and> format_g [] 3 (shortenedDigits r) = Inr t
           \<and> formatSI x 3 [] = Inr (t @ ustr '' '' @ pre)
           \<and> (\<bar>shortenedDigits r\<bar> < 9995 / 10 \<longrightarrow>
                (\<exists>v. decimal_value t = Some v \<and> 1 \<le> \<bar>v\<bar> \<and> \<bar>v\<bar> < 1000))"
proof -
  have x0: "x \<noteq> 0" using assms(1) by auto
  have b: "\<bar>x\<bar> < 10 powi 13" using assms(2) by simp
  have "\<exists>r. round_e 3 x = Finite r \<and> 10 powi (- 12) \<le> \<bar>r\<bar> \<and> \<bar>r\<bar> \<le> 10 powi 13"
  proof (cases "1 / 10 ^ 12 \<le> \<bar>x\<bar>")
    case True
    then have a: "10 powi (- 12) \<le> \<bar>x\<bar>" by (simp add: power_int_minus field_simps)
    show ?thesis using round_e_range [OF a b] by simp
  next
    case False
    then have "\<bar>x\<bar> < 1 / 10 ^ 12" by simp
    then have sr: "sig_round (3 + 1) \<bar>x\<bar> = (1000, - 12)"
      using sig_round_below_pico [OF assms(1)] by simp
    define q where "q = sgn x * of_int 1000 * 10 powi (- 12 - int 3)"
    have fin: "round_e 3 x = Finite q"
      unfolding q_def by (rule round_e_eval [OF x0 sr]) (simp add: power_int_minus)
    have aq: "\<bar>q\<bar> = 10 powi (- 12)"
      using x0 by (simp add: q_def abs_mult abs_sgn_eq power_int_minus)
    have "(10::real) powi (- 12) \<le> 10 powi 13" by (rule power_int_increasing) simp_all
    then have "10 powi (- 12) \<le> \<bar>q\<bar>" "\<bar>q\<bar> \<le> 10 powi 13" by (simp_all only: aq)
    with fin show ?thesis by blast
  qed
  then obtain r where r: "round_e 3 x = Finite r" "10 powi (- 12) \<le> \<bar>r\<bar>" "\<bar>r\<bar> \<le> 10 powi 13"
    by blast
  have r0: "r \<noteq> 0" using r(2) by auto
  have lo: "1000 powi (- 4) \<le> \<bar>r\<bar>" using r(2) by (simp add: power_int_minus)
  have hi: "\<bar>r\<bar> < 1000 powi (4 + 1)" using r(3) by simp
  note bt = baseThousand_bounds [OF r0 lo hi]
  note mb = mantissa_bounds [OF r0]
  obtain pre where pre: "prefixDict (prefixKey (baseThousand r)) = Some pre"
    using prefixKey_in_table [OF bt] by auto
  obtain t where t: "format_g [] 3 (shortenedDigits r) = Inr t"
    by (simp add: format_g_def parse_spec_empty)
  have "formatSI x 3 [] = map_sum id (\<lambda>t. t @ ustr '' '' @ pre) (Inr t)"
    by (rule formatSI_eval_in_table [OF x0 r(1) refl pre refl t])
  then have f: "formatSI x 3 [] = Inr (t @ ustr '' '' @ pre)" by simp
  have v: "\<exists>v. decimal_value t = Some v \<and> 1 \<le> \<bar>v\<bar> \<and> \<bar>v\<bar> < 1000"
    if "\<bar>shortenedDigits r\<bar> < 9995 / 10"
    using format_g_fixed_value [OF mb(1) that] t by auto
  from r(1) baseThousand_ln [OF r0] bt pre mb t f v show ?thesis by blast
qed

theorem formatSI_scaled_in_table_witness:
  "99995 / 10 ^ 17 \<le> \<bar>1234 :: real\<bar> \<and> \<bar>1234 :: real\<bar> < 10 ^ 13
   \<and> round_e 3 1234 = Finite 1234
   \<and> baseThousand 1234 = 1
   \<and> shortenedDigits 1234 = 1234 / 1000
   \<and> \<bar>1234 / 1000 :: real\<bar> < 9995 / 10
   \<and> format_g [] 3 (1234 / 1000) = Inr (ustr ''1.23'')
   \<and> (\<exists>v. decimal_value (ustr ''1.23'') = Some v \<and> 1 \<le> \<bar>v\<bar> \<and> \<bar>v\<bar> < 1000)
   \<and> formatSI 1234 3 [] = Inr (ustr ''1.23 k'')
   \<and> 99995 / 10 ^ 17 \<le> \<bar>4951760157141521 / 2 ^ 92 :: real\<bar>
   \<and> \<bar>4951760157141521 / 2 ^ 92 :: real\<bar> < 1 / 10 ^ 12
   \<and> formatSI (4951760157141521 / 2 ^ 92) 3 [] = Inr (ustr ''1 p'')"
proof -
  have h1: "99995 / 10 ^ 17 \<le> \<bar>1234 :: real\<bar>" by simp
  have h2: "\<bar>1234 :: real\<bar> < 10 ^ 13" by simp
  have h3: "\<bar>1234 / 1000 :: real\<bar> < 9995 / 10" by simp
  obtain r pre t where r: "round_e 3 1234 = Finite r"
    and t: "format_g [] 3 (shortenedDigits r) = Inr t"
    and v: "\<bar>shortenedDigits r\<bar> < 9995 / 10 \<longrightarrow>
        (\<exists>v. decimal_value t = Some v \<and> 1 \<le> \<bar>v\<bar> \<and> \<bar>v\<bar> < 1000)"
    using formatSI_scaled_in_table [OF h1 h2] by blast
  have r': "r = 1234" using r by (simp add: round_e_1234)
  have t': "t = ustr ''1.23''"
    using t unfolding r' shortenedDigits_1234 format_g_1_234 by simp
  have "\<exists>v. decimal_value (ustr ''1.23'') = Some v \<and> 1 \<le> \<bar>v\<bar> \<and> \<bar>v\<bar> < 1000"
    using v h3 unfolding r' shortenedDigits_1234 t' by blast
  then show ?thesis
    using h1 h2 h3 round_e_1234 baseThousand_1234 shortenedDigits_1234 format_g_1_234
      formatSI_1234 double_1em12_range formatSI_double_1em12
    by blast
qed

text \<open>
  With the range starting at \<open>1e-13\<close> the statement fails at \<open>x = 1e-13\<close>: the exponent is \<open>-5\<close>, no
  key of the table, and the result renders the unscaled number, of magnitude below 1, not
  the scaled number 100.
\<close>

theorem formatSI_1em13_not_scaled:
  "1 / 10 ^ 13 \<le> \<bar>1 / 10 ^ 13 :: real\<bar> \<and> \<bar>1 / 10 ^ 13 :: real\<bar> < 10 ^ 13
   \<and> round_e 3 (1 / 10 ^ 13) = Finite (1 / 10 ^ 13)
   \<and> baseThousand (1 / 10 ^ 13) = - 5
   \<and> prefixDict (prefixKey (- 5)) = None
   \<and> format_g [] 3 (shortenedDigits (1 / 10 ^ 13)) = Inr (ustr ''100'')
   \<and> format_g [] 3 (1 / 10 ^ 13) = Inr (ustr ''1e-13'')
   \<and> formatSI (1 / 10 ^ 13) 3 [] = Inr (ustr ''1e-13 '')
   \<and> \<not> 1 \<le> \<bar>1 / 10 ^ 13 :: real\<bar>"
proof -
  have "1 / 10 ^ 13 \<le> \<bar>1 / 10 ^ 13 :: real\<bar>" "\<bar>1 / 10 ^ 13 :: real\<bar> < 10 ^ 13"
    "\<not> 1 \<le> \<bar>1 / 10 ^ 13 :: real\<bar>" by simp_all
  moreover have "format_g [] 3 (shortenedDigits (1 / 10 ^ 13)) = Inr (ustr ''100'')"
    by (simp only: shortenedDigits_1em13 format_g_100)
  ultimately show ?thesis
    using round_e_1em13 baseThousand_1em13 prefixDict_m5 format_g_1em13 formatSI_1em13
    by blast
qed

text \<open>
  C2. \<open>formatSI\<close> rounds to \<open>precision + 1\<close> significant digits, the digits of the format
  \<open>.{precision}e\<close>, not to \<open>precision\<close>: at the specification's own example, 999.6 at precision
  3, the rounded number is still 999.6, the exponent is 0, and the result shows 1000 in
  the lower tier, as \<open>1e+03\<close> with the empty prefix.
\<close>

theorem formatSI_999_6_not_promoted:
  "round_e 3 (9996 / 10) = Finite (9996 / 10)
   \<and> baseThousand (9996 / 10) = 0
   \<and> formatSI (9996 / 10) 3 [] = Inr (ustr ''1e+03 '')"
  using round_e_999_6 baseThousand_999_6 formatSI_999_6 by blast

text \<open>
  C3. \<open>formatSI(999.96, 3, '')\<close>: the rounded number is 1000, the base-1000 exponent is
  1, the scaled number is 1 and the result carries the prefix \<open>k\<close>; the format \<open>g\<close>
  writes the mantissa 1.00 as \<open>1\<close>.
\<close>

theorem formatSI_999_96_promoted:
  "round_e 3 (99996 / 100) = Finite 1000
   \<and> baseThousand 1000 = 1
   \<and> shortenedDigits 1000 = 1
   \<and> prefixDict (prefixKey 1) = Some (ustr ''k'')
   \<and> formatSI (99996 / 100) 3 [] = Inr (ustr ''1 k'')"
  using round_e_999_96 baseThousand_1000 shortenedDigits_1000 prefixDict_1 formatSI_999_96
  by blast

text \<open>
  C4. For every tier \<open>e\<close> from \<open>-4\<close> to \<open>4\<close>, \<open>formatSI(1000^e, 3, '')\<close> is the mantissa 1
  followed by a space and the prefix of the tier: p, n, GREEK SMALL LETTER MU (code point
  956, not the letter u), m, nothing, k, M, G, T.
\<close>

theorem formatSI_tier_table:
  "formatSI (1000 powi (- 4)) 3 [] = Inr (ustr ''1 p'')
   \<and> formatSI (1000 powi (- 3)) 3 [] = Inr (ustr ''1 n'')
   \<and> formatSI (1000 powi (- 2)) 3 [] = Inr (ustr ''1 '' @ [956])
   \<and> formatSI (1000 powi (- 1)) 3 [] = Inr (ustr ''1 m'')
   \<and> formatSI (1000 powi 0) 3 [] = Inr (ustr ''1 '')
   \<and> formatSI (1000 powi 1) 3 [] = Inr (ustr ''1 k'')
   \<and> formatSI (1000 powi 2) 3 [] = Inr (ustr ''1 M'')
   \<and> formatSI (1000 powi 3) 3 [] = Inr (ustr ''1 G'')
   \<and> formatSI (1000 powi 4) 3 [] = Inr (ustr ''1 T'')
   \<and> [956] \<noteq> ustr ''u''"
proof -
  have k: "prefixDict (prefixKey (- 4)) = Some (ustr ''p'')"
    "prefixDict (prefixKey (- 3)) = Some (ustr ''n'')"
    "prefixDict (prefixKey (- 2)) = Some [956]"
    "prefixDict (prefixKey (- 1)) = Some (ustr ''m'')"
    "prefixDict (prefixKey 0) = Some []"
    "prefixDict (prefixKey 1) = Some (ustr ''k'')"
    "prefixDict (prefixKey 2) = Some (ustr ''M'')"
    "prefixDict (prefixKey 3) = Some (ustr ''G'')"
    "prefixDict (prefixKey 4) = Some (ustr ''T'')"
    by (simp_all add: prefixDict_def prefixKey_def nat_digits_small ustr_def)
  have b: "(1000::real) powi e < 2 ^ 1024 - 2 ^ 970" if "e \<le> 4" for e
  proof -
    have "(1000::real) powi e \<le> 1000 powi 4" using that by (intro power_int_increasing) simp_all
    also have "\<dots> < 2 ^ 1024 - 2 ^ 970" by simp
    finally show ?thesis .
  qed
  have "formatSI (1000 powi (- 4)) 3 [] = Inr (ustr ''1 p'')"
    using formatSI_pow1000 [OF b k(1)] by (simp add: ustr_def)
  moreover have "formatSI (1000 powi (- 3)) 3 [] = Inr (ustr ''1 n'')"
    using formatSI_pow1000 [OF b k(2)] by (simp add: ustr_def)
  moreover have "formatSI (1000 powi (- 2)) 3 [] = Inr (ustr ''1 '' @ [956])"
    using formatSI_pow1000 [OF b k(3)] by (simp add: ustr_def)
  moreover have "formatSI (1000 powi (- 1)) 3 [] = Inr (ustr ''1 m'')"
    using formatSI_pow1000 [OF b k(4)] by (simp add: ustr_def)
  moreover have "formatSI (1000 powi 0) 3 [] = Inr (ustr ''1 '')"
    using formatSI_pow1000 [OF b k(5)] by (simp add: ustr_def)
  moreover have "formatSI (1000 powi 1) 3 [] = Inr (ustr ''1 k'')"
    using formatSI_pow1000 [OF b k(6)] by (simp add: ustr_def)
  moreover have "formatSI (1000 powi 2) 3 [] = Inr (ustr ''1 M'')"
    using formatSI_pow1000 [OF b k(7)] by (simp add: ustr_def)
  moreover have "formatSI (1000 powi 3) 3 [] = Inr (ustr ''1 G'')"
    using formatSI_pow1000 [OF b k(8)] by (simp add: ustr_def)
  moreover have "formatSI (1000 powi 4) 3 [] = Inr (ustr ''1 T'')"
    using formatSI_pow1000 [OF b k(9)] by (simp add: ustr_def)
  moreover have "[956] \<noteq> ustr ''u''" by (simp add: ustr_def)
  ultimately show ?thesis by blast
qed

lemma render_g_default_1e20:
  "render_g \<lparr>fill = 32, align = AlignRight, sign = SignMinus, alternate = False,
      width = 0, thousands = None\<rparr> 3 (10 ^ 20) = ustr ''1e+20''"
  using format_g_1e20 by (simp add: format_g_def parse_spec_empty)

lemma parse_spec_right_8:
  "parse_spec (ustr ''>8'') = Inr \<lparr>fill = 32, align = AlignRight, sign = SignMinus,
     alternate = False, width = 8, thousands = None\<rparr>"
  by (simp add: parse_spec_def take_align_def take_sign_def take_char_def digits_value_def
      align_of_def sign_option_of_def is_digit_def ustr_def)

lemma render_g_right_8_zero:
  "render_g \<lparr>fill = 32, align = AlignRight, sign = SignMinus, alternate = False,
      width = 8, thousands = None\<rparr> 3 0 = ustr ''       0''"
  by (simp add: render_g_def g_parts_0 sign_of_def group_digits_def ustr_def numeral_eq_Suc)

text \<open>
  C5. When the rounded number is finite and its base-1000 exponent lies outside
  \<open>[-4, 4]\<close>, the exponent is no key of the table, and the result is the rounded number
  itself, not rescaled, rendered with the given precision and format specification and
  followed by one space; no prefix follows.
\<close>

theorem formatSI_out_of_table:
  assumes "number \<noteq> 0" and "round_e precision number = Finite r"
    and "baseThousand r < - 4 \<or> 4 < baseThousand r" and "parse_spec s = Inr sp"
  shows "prefixDict (prefixKey (baseThousand r)) = None
         \<and> formatSI number precision s = Inr (render_g sp precision r @ ustr '' '')"
proof -
  have n: "prefixDict (prefixKey (baseThousand r)) = None"
    using assms(3) by (rule prefixKey_not_in_table)
  have f: "format_g s precision r = Inr (render_g sp precision r)"
    using assms(4) by (simp add: format_g_def)
  have "formatSI number precision s
      = map_sum id (\<lambda>t. t @ ustr '' '') (Inr (render_g sp precision r))"
    by (rule formatSI_eval_out_of_table [OF assms(1,2) refl n f])
  with n show ?thesis by simp
qed

theorem formatSI_out_of_table_witness:
  "(10 ^ 20 :: real) \<noteq> 0 \<and> round_e 3 (10 ^ 20) = Finite (10 ^ 20)
   \<and> (baseThousand (10 ^ 20) < - 4 \<or> 4 < baseThousand (10 ^ 20))
   \<and> parse_spec [] = Inr \<lparr>fill = 32, align = AlignRight, sign = SignMinus,
        alternate = False, width = 0, thousands = None\<rparr>
   \<and> prefixDict (prefixKey (baseThousand (10 ^ 20))) = None
   \<and> formatSI (10 ^ 20) 3 [] = Inr (ustr ''1e+20 '')"
proof -
  have h1: "(10 ^ 20 :: real) \<noteq> 0" by simp
  have h3: "baseThousand (10 ^ 20) < - 4 \<or> 4 < baseThousand (10 ^ 20)"
    using baseThousand_1e20 by simp
  have e: "ustr ''1e+20'' @ ustr '' '' = ustr ''1e+20 ''" by (simp add: ustr_def)
  have "prefixDict (prefixKey (baseThousand (10 ^ 20))) = None
      \<and> formatSI (10 ^ 20) 3 [] = Inr (ustr ''1e+20 '')"
    using formatSI_out_of_table [OF h1 round_e_1e20 h3 parse_spec_empty]
    by (simp only: render_g_default_1e20 e)
  then show ?thesis
    using h1 h3 round_e_1e20 parse_spec_empty by blast
qed

text \<open>
  C6. For every precision \<open>p\<close> and every well-formed format specification \<open>s\<close>,
  \<open>formatSI(0, p, s)\<close> is zero rendered by \<open>{s}.{p}g\<close> followed by one space, with no
  prefix; with the empty specification that is \<open>0\<close> and a space, whatever \<open>p\<close> is.
\<close>

theorem formatSI_zero:
  assumes "parse_spec s = Inr sp"
  shows "formatSI 0 p s = Inr (render_g sp p 0 @ ustr '' '')
         \<and> formatSI 0 p [] = Inr (ustr ''0 '')"
  using assms by (simp add: formatSI_def format_g_def format_g_0 [unfolded format_g_def] ustr_def)

theorem formatSI_zero_witness:
  "parse_spec (ustr ''>8'') = Inr \<lparr>fill = 32, align = AlignRight, sign = SignMinus,
       alternate = False, width = 8, thousands = None\<rparr>
   \<and> formatSI 0 3 (ustr ''>8'') = Inr (ustr ''       0 '')
   \<and> formatSI 0 3 [] = Inr (ustr ''0 '')"
proof -
  have e: "ustr ''       0'' @ ustr '' '' = ustr ''       0 ''" by (simp add: ustr_def)
  have "formatSI 0 3 (ustr ''>8'') = Inr (ustr ''       0 '')
      \<and> formatSI 0 3 [] = Inr (ustr ''0 '')"
    using formatSI_zero [OF parse_spec_right_8, of 3]
    by (simp only: render_g_right_8_zero e)
  then show ?thesis
    using parse_spec_right_8 by blast
qed

text \<open>
  C7. For every \<open>x > 0\<close>, rounding keeps the sign, the exponent is taken of the
  magnitude, the scaled number changes sign only, and \<open>formatSI(-x, 3, '')\<close> is
  \<open>formatSI(x, 3, '')\<close> with a minus sign in front: same digits, same prefix.
\<close>

theorem formatSI_sign_symmetry:
  assumes "0 < x"
  shows "round_e 3 (- x)
           = (case round_e 3 x of Finite r \<Rightarrow> Finite (- r) | PosInf \<Rightarrow> NegInf | NegInf \<Rightarrow> PosInf)
         \<and> baseThousand (- r) = baseThousand r
         \<and> shortenedDigits (- r) = - shortenedDigits r
         \<and> formatSI (- x) 3 [] = map_sum id (\<lambda>t. 45 # t) (formatSI x 3 [])"
  using round_e_minus [of 3 x] baseThousand_minus [of r] shortenedDigits_minus [of r]
    formatSI_minus [OF assms, of 3]
  by blast

theorem formatSI_sign_symmetry_witness:
  "(0 :: real) < 1234
   \<and> round_e 3 (- 1234) = Finite (- 1234)
   \<and> baseThousand (- 1234) = 1
   \<and> formatSI 1234 3 [] = Inr (ustr ''1.23 k'')
   \<and> formatSI (- 1234) 3 [] = Inr (ustr ''-1.23 k'')"
proof -
  have h: "(0 :: real) < 1234" by simp
  note s = formatSI_sign_symmetry [OF h, of 1234]
  have "round_e 3 (- 1234) = Finite (- 1234)" using s by (simp add: round_e_1234)
  moreover have "baseThousand (- 1234) = 1" using s by (simp add: baseThousand_1234)
  moreover have "formatSI (- 1234) 3 [] = Inr (ustr ''-1.23 k'')"
    using s by (simp add: formatSI_1234 ustr_def)
  ultimately show ?thesis using h formatSI_1234 by blast
qed

lemma formatSI_returns:
  assumes "parse_spec s = Inr sp" and "number = 0 \<or> round_e precision number = Finite r"
  shows "\<exists>t. formatSI number precision s = Inr t"
  using assms by (auto simp: formatSI_def format_g_def split: option.splits)

text \<open>
  C8. \<open>formatSI\<close> does raise on a finite input: the largest finite double,
  \<open>2^1024 - 2^971\<close> (about 1.7977e308), rounds at precision 3 to the decimal
  \<open>1.798e+308\<close>, which \<open>float\<close> reads as infinity, and \<open>int\<close> of the infinite exponent
  raises \<open>OverflowError\<close>.
\<close>

theorem formatSI_overflow_at_largest_double:
  "sig_round 4 \<bar>2 ^ 1024 - 2 ^ 971\<bar> = (1798, 308)
   \<and> round_e 3 (2 ^ 1024 - 2 ^ 971) = PosInf
   \<and> formatSI (2 ^ 1024 - 2 ^ 971) 3 [] = Inl OverflowError"
proof -
  have "formatSI (2 ^ 1024 - 2 ^ 971) 3 [] = Inl OverflowError"
    using round_e_max by (simp add: formatSI_def)
  then show ?thesis using sig_round_max round_e_max by blast
qed

section \<open>Claims about the class \<open>Curve\<close>\<close>

text \<open>
  C9. In \<open>plot_line\<close> the path taken when \<open>pos\<close> is \<open>None\<close> and the path taken when
  \<open>label\<close> is \<open>None\<close> evaluate the unbound name \<open>Return\<close>: such a call has drawn the
  line and then ends in \<open>NameError\<close> instead of returning.
\<close>

theorem plot_line_Return_raises:
  "pos = None \<or> label = None \<Longrightarrow>
     plot_line au self minv maxv pos label =
       (add_artist au (Line [(minv, func self minv), (maxv, func self maxv)]) (ax self),
        Inl NameError)"
  by (auto simp: plot_line_def Let_def split: option.splits)

theorem plot_line_Return_raises_witness:
  "((None :: real option) = None \<or> Some (ustr ''a'') = None) \<and>
   plot_line (\<lambda>a axs. (xlim axs, ylim axs))
       \<lparr>ax = \<lparr>xlim = (0, 1), ylim = (0, 1), artists = []\<rparr>, func = (\<lambda>x. 2 * x), n_points = 100\<rparr>
       0 1 None (Some (ustr ''a''))
     = (\<lparr>xlim = (0, 1), ylim = (0, 1), artists = [Line [(0, 0), (1, 2)]]\<rparr>, Inl NameError)"
  using plot_line_Return_raises
    [of "None" "Some (ustr ''a'')" "\<lambda>a axs. (xlim axs, ylim axs)"
        "\<lparr>ax = \<lparr>xlim = (0, 1), ylim = (0, 1), artists = []\<rparr>, func = (\<lambda>x. 2 * x), n_points = 100\<rparr>"
        0 1]
  by (simp add: add_artist_def)

text \<open>
  C10. \<open>draw_connecting_hline\<close> leaves the y-limits of the axes as they were before the
  call, however the library rescales the view for the line added, and
  \<open>draw_connecting_vline\<close> leaves the x-limits as they were.
\<close>

theorem draw_connecting_restores_limits:
  "ylim (draw_connecting_hline au self x label pos) = ylim (ax self) \<and>
   xlim (draw_connecting_vline au self x label pos) = xlim (ax self)"
  by (simp add: draw_connecting_hline_def draw_connecting_vline_def set_ylim_def set_xlim_def
      annotate_def Let_def split: prod.splits option.splits)

end
